theory Spec2Isabelle
  imports Complex_Main "HOL-Library.AList"
begin

section \<open>Data model of \<^verbatim>\<open>yolo/tools/dataset_helper.py\<close>\<close>

text \<open>
  The module works on the object that \<^verbatim>\<open>json.load\<close> returns for a COCO-style
  annotation file. The dictionaries of that object are read through a fixed set of keys
  only, so each kind of dictionary is a record with one optional field per key that the
  code reads or that the schema requires: \<open>None\<close> stands for "the key is absent", and a
  subscript \<^verbatim>\<open>d["k"]\<close> on an absent key is the \<^verbatim>\<open>KeyError\<close> that Python raises.
  Exceptions are values of type \<open>error\<close>; a function that can raise returns
  \<open>error + 'a\<close> with \<open>Inl\<close> for the exception. The constructors carry the names of
  the Python exceptions that the module lets escape: the \<^verbatim>\<open>KeyError\<close> of a subscript
  with an absent key (with the key), the \<^verbatim>\<open>ValueError\<close> of numpy's \<^verbatim>\<open>reshape\<close>, and the
  \<^verbatim>\<open>FileNotFoundError\<close> that \<^verbatim>\<open>find_labels_path\<close> raises itself. The specification
  calls these error kinds \<^verbatim>\<open>MalformedCorpusError\<close>, \<^verbatim>\<open>MalformedAnnotationError\<close> and
  \<^verbatim>\<open>LabelsNotFoundError\<close>.
\<close>

datatype error =
    KeyError string
  | ValueError
  | FileNotFoundError

text \<open>
  An annotation descriptor. \<^verbatim>\<open>iscrowd\<close> is the integer (0 or 1) of the COCO
  format and is tested by Python truthiness; \<^verbatim>\<open>segmentation\<close> is a list of polygon
  rings, each a flat list of numbers \<^verbatim>\<open>[x0, y0, x1, y1, ...]\<close>. A JSON number is decoded
  to a Python \<^verbatim>\<open>int\<close> or \<^verbatim>\<open>float\<close>; both are the real number they denote.
\<close>

record annotation =
  image_id :: "int option"
  category_id :: "int option"
  iscrowd :: "int option"
  segmentation :: "real list list option"

record image_info =
  file_name :: "string option"
  height :: "int option"
  width :: "int option"
  image_ident :: "int option"

record labels_data =
  images :: "image_info list option"
  annotations :: "annotation list option"

text \<open>
  Python dictionaries built by the module keep insertion order, so they are association
  lists: \<^const>\<open>AList.update\<close> is the assignment \<^verbatim>\<open>d[k] = v\<close> (an existing key keeps its
  place, a new key goes to the end) and \<^const>\<open>map_of\<close> is the lookup.
\<close>

type_synonym annotation_lookup = "(int \<times> annotation list) list"
type_synonym image_info_dict = "(string \<times> image_info) list"

text \<open>
  The elements of a scaled segmentation list: the leading \<^verbatim>\<open>category_id\<close> stays a
  Python integer, the coordinates are the floats that numpy's true division returns: a
  finite double is the real number it denotes (the two zeros are not told apart), and
  \<^verbatim>\<open>inf\<close>, \<^verbatim>\<open>-inf\<close> and \<^verbatim>\<open>nan\<close>, which numpy returns for a zero divisor and on overflow
  (with a warning, not an exception), are \<open>PyNonFinite\<close>.
\<close>

datatype pynum =
    PyInt int
  | PyFloat real
  | PyNonFinite

section \<open>String and path helpers of the Python library\<close>

definition startswith :: "string \<Rightarrow> string \<Rightarrow> bool" where
  "startswith pre s = (take (length pre) s = pre)"

definition endswith :: "string \<Rightarrow> string \<Rightarrow> bool" where
  "endswith suf s = (length suf \<le> length s \<and> drop (length s - length suf) s = suf)"

text \<open>One step of \<^verbatim>\<open>posixpath.join\<close>; \<^verbatim>\<open>join(a, b, c)\<close> is \<^verbatim>\<open>join(join(a, b), c)\<close>.\<close>

definition path_join :: "string \<Rightarrow> string \<Rightarrow> string" where
  "path_join a b =
     (if startswith ''/'' b then b
      else if a = [] \<or> endswith ''/'' a then a @ b
      else a @ ''/'' @ b)"

text \<open>\<^verbatim>\<open>str.rfind\<close> for a single character: the last index of \<open>c\<close>, or \<open>-1\<close>.\<close>

fun rfind :: "char \<Rightarrow> string \<Rightarrow> int" where
  "rfind c [] = -1"
| "rfind c (x # xs) =
     (let r = rfind c xs in
      if 0 \<le> r then r + 1 else if x = c then 0 else -1)"

text \<open>
  \<^verbatim>\<open>posixpath.splitext\<close>: the extension starts at the last dot of the last path
  component, unless that component has only dots before it.
\<close>

definition splitext :: "string \<Rightarrow> string \<times> string" where
  "splitext p =
     (let sepIndex = rfind CHR ''/'' p;
          dotIndex = rfind CHR ''.'' p
      in if dotIndex > sepIndex \<and>
            list_ex (\<lambda>k. p ! k \<noteq> CHR ''.'') [nat (sepIndex + 1) ..< nat dotIndex]
         then (take (nat dotIndex) p, drop (nat dotIndex) p)
         else (p, []))"

section \<open>\<^verbatim>\<open>find_labels_path\<close>\<close>

text \<open>
  The file system is what the three library calls of the function observe:
  \<^verbatim>\<open>path.isfile\<close>, \<^verbatim>\<open>path.isdir\<close> and \<^verbatim>\<open>os.listdir\<close>.
\<close>

record filesystem =
  isfile :: "string \<Rightarrow> bool"
  isdir :: "string \<Rightarrow> bool"
  listdir :: "string \<Rightarrow> string list"

definition json_labels_path :: "string \<Rightarrow> string \<Rightarrow> string" where
  "json_labels_path dataset_path phase_name =
     path_join (path_join dataset_path ''annotations'') (''instances_'' @ phase_name @ ''.json'')"

definition txt_labels_path :: "string \<Rightarrow> string \<Rightarrow> string" where
  "txt_labels_path dataset_path phase_name =
     path_join (path_join dataset_path ''labels'') phase_name"

text \<open>The source's first condition is \<^verbatim>\<open>path.isfile(json_labels_path) and False\<close>.\<close>

definition find_labels_path :: "filesystem \<Rightarrow> string \<Rightarrow> string \<Rightarrow> error + (string \<times> string)" where
  "find_labels_path fs dataset_path phase_name =
     (if isfile fs (json_labels_path dataset_path phase_name) \<and> False
      then Inr (json_labels_path dataset_path phase_name, ''json'')
      else if isdir fs (txt_labels_path dataset_path phase_name)
      then (let txt_files = filter (endswith ''.txt'') (listdir fs (txt_labels_path dataset_path phase_name))
            in if txt_files \<noteq> []
               then Inr (txt_labels_path dataset_path phase_name, ''txt'')
               else Inl FileNotFoundError)
      else Inl FileNotFoundError)"

section \<open>\<^verbatim>\<open>index_annotations_by_image\<close> and \<^verbatim>\<open>create_image_info_dict\<close>\<close>

text \<open>Python truthiness of the \<^verbatim>\<open>iscrowd\<close> integer.\<close>

definition truthy :: "int \<Rightarrow> bool" where
  "truthy c = (c \<noteq> 0)"

text \<open>
  The body of the \<^verbatim>\<open>for anno in data["annotations"]\<close> loop, with the dictionary
  \<^verbatim>\<open>annotation_lookup\<close> passed along. \<^verbatim>\<open>annotation_lookup[image_id].append(anno)\<close>
  changes the entry in place (\<^const>\<open>AList.map_entry\<close>).
\<close>

fun index_loop :: "annotation list \<Rightarrow> annotation_lookup \<Rightarrow> error + annotation_lookup" where
  "index_loop [] annotation_lookup = Inr annotation_lookup"
| "index_loop (anno # rest) annotation_lookup =
     (case iscrowd anno of
        None \<Rightarrow> Inl (KeyError ''iscrowd'')
      | Some c \<Rightarrow>
          if truthy c then index_loop rest annotation_lookup
          else (case image_id anno of
                  None \<Rightarrow> Inl (KeyError ''image_id'')
                | Some i \<Rightarrow>
                    let lookup1 = (if map_of annotation_lookup i = None
                                   then AList.update i [] annotation_lookup
                                   else annotation_lookup)
                    in index_loop rest (AList.map_entry i (\<lambda>l. l @ [anno]) lookup1)))"

definition index_annotations_by_image :: "labels_data \<Rightarrow> error + annotation_lookup" where
  "index_annotations_by_image data =
     (case annotations data of
        None \<Rightarrow> Inl (KeyError ''annotations'')
      | Some annos \<Rightarrow> index_loop annos [])"

text \<open>
  The dictionary comprehension
  \<^verbatim>\<open>{path.splitext(img["file_name"])[0]: img for img in labels_data["images"]}\<close>.
\<close>

fun image_info_loop :: "image_info list \<Rightarrow> image_info_dict \<Rightarrow> error + image_info_dict" where
  "image_info_loop [] d = Inr d"
| "image_info_loop (img # rest) d =
     (case file_name img of
        None \<Rightarrow> Inl (KeyError ''file_name'')
      | Some fn \<Rightarrow> image_info_loop rest (AList.update (fst (splitext fn)) img d))"

text \<open>
  \<^verbatim>\<open>create_image_info_dict\<close> opens the file and decodes it; the argument here is the
  decoded object \<^verbatim>\<open>labels_data\<close>. The annotation index is built first, then the
  dictionary of images.
\<close>

definition create_image_info_dict :: "labels_data \<Rightarrow> error + (annotation_lookup \<times> image_info_dict)" where
  "create_image_info_dict data =
     (case index_annotations_by_image data of
        Inl e \<Rightarrow> Inl e
      | Inr annotations_index \<Rightarrow>
          (case images data of
             None \<Rightarrow> Inl (KeyError ''images'')
           | Some imgs \<Rightarrow>
               (case image_info_loop imgs [] of
                  Inl e \<Rightarrow> Inl e
                | Inr image_info_dict \<Rightarrow> Inr (annotations_index, image_info_dict))))"

section \<open>\<^verbatim>\<open>get_scaled_segmentation\<close>\<close>

text \<open>
  \<^verbatim>\<open>np.array(seg_list).reshape(-1, 2)\<close>: rows of two, and a \<^verbatim>\<open>ValueError\<close> when the
  number of elements is odd.
\<close>

fun reshape2 :: "real list \<Rightarrow> error + (real \<times> real) list" where
  "reshape2 [] = Inr []"
| "reshape2 [x] = Inl ValueError"
| "reshape2 (x # y # zs) =
     (case reshape2 zs of Inl e \<Rightarrow> Inl e | Inr rows \<Rightarrow> Inr ((x, y) # rows))"

text \<open>
  The arithmetic of \<^verbatim>\<open>np.array(seg_list) / [w, h]\<close>. When the numbers of both lists are
  Python floats or Python ints that fit a signed 64-bit integer, numpy builds arrays of
  dtype \<^verbatim>\<open>int64\<close> or \<^verbatim>\<open>float64\<close>, and its true division converts both operands to
  doubles and divides them as IEEE 754 prescribes, rounding to nearest with ties to even.

  \<open>float64_round\<close> is that rounding, to 53 significant bits and a least exponent of
  \<open>-1074\<close> (so it covers the subnormal numbers and the underflow to zero):
  \<open>ulp_exponent x\<close> is the exponent of the spacing of the doubles around \<open>x\<close>, and \<open>x\<close> is
  rounded to the nearest multiple of that spacing. It is the conversion of an \<^verbatim>\<open>int64\<close> to
  a double as well as the rounding of the quotient.
\<close>

definition round_half_even :: "real \<Rightarrow> int" where
  "round_half_even y =
     (let f = \<lfloor>y\<rfloor> in
      if y - of_int f < 1 / 2 then f
      else if 1 / 2 < y - of_int f then f + 1
      else if even f then f else f + 1)"

definition ulp_exponent :: "real \<Rightarrow> int" where
  "ulp_exponent x = max (- 1074) (\<lfloor>log 2 \<bar>x\<bar>\<rfloor> - 52)"

definition float64_round :: "real \<Rightarrow> real" where
  "float64_round x =
     (let e = ulp_exponent x
      in sgn x * (of_int (round_half_even (\<bar>x\<bar> / 2 powi e)) * 2 powi e))"

definition float64_quotient :: "real \<Rightarrow> int \<Rightarrow> real" where
  "float64_quotient x d = float64_round (float64_round x / float64_round (real_of_int d))"

text \<open>
  One element of the division: a zero divisor and a quotient beyond the largest double
  give a non-finite value, anything else the rounded quotient.

  A Python int outside the \<^verbatim>\<open>int64\<close> range makes \<^verbatim>\<open>np.array\<close> choose another dtype
  (\<^verbatim>\<open>uint64\<close> or \<^verbatim>\<open>object\<close>), and an object array is divided element by element with
  Python's own division, which can raise \<^verbatim>\<open>OverflowError\<close> or \<^verbatim>\<open>ZeroDivisionError\<close>. That
  arithmetic is not described here: the statements about scaled values assume that the
  coordinates satisfy \<open>numpy_number\<close> and the dimensions \<open>int64_value\<close>, defined below.
\<close>

definition np_divide :: "real \<Rightarrow> int \<Rightarrow> pynum" where
  "np_divide x d =
     (if d = 0 \<or> 2 ^ 1024 \<le> \<bar>float64_quotient x d\<bar> then PyNonFinite
      else PyFloat (float64_quotient x d))"

text \<open>The body of the \<^verbatim>\<open>for anno in annotations\<close> loop, for one annotation.\<close>

definition scale_annotation :: "int \<Rightarrow> int \<Rightarrow> annotation \<Rightarrow> error + pynum list" where
  "scale_annotation h w anno =
     (case category_id anno of
        None \<Rightarrow> Inl (KeyError ''category_id'')
      | Some c \<Rightarrow>
          (case segmentation anno of
             None \<Rightarrow> Inl (KeyError ''segmentation'')
           | Some seg \<Rightarrow>
               (let seg_list = concat seg in
                case reshape2 seg_list of
                  Inl e \<Rightarrow> Inl e
                | Inr rows \<Rightarrow>
                    (let scaled_seg_data = map (\<lambda>(x, y). [np_divide x w, np_divide y h]) rows
                     in Inr (PyInt c # concat scaled_seg_data)))))"

fun scale_loop :: "int \<Rightarrow> int \<Rightarrow> annotation list \<Rightarrow> pynum list list \<Rightarrow> error + pynum list list" where
  "scale_loop h w [] seg_array_with_cat = Inr seg_array_with_cat"
| "scale_loop h w (anno # rest) seg_array_with_cat =
     (case scale_annotation h w anno of
        Inl e \<Rightarrow> Inl e
      | Inr scaled_flat_seg_data \<Rightarrow>
          scale_loop h w rest (seg_array_with_cat @ [scaled_flat_seg_data]))"

text \<open>
  \<^verbatim>\<open>image_dimensions\<close> is a \<^verbatim>\<open>Dict[str, int]\<close>, a map. The test for \<^verbatim>\<open>None\<close> comes
  before anything is read from it; \<^verbatim>\<open>"height"\<close> is read before \<^verbatim>\<open>"width"\<close>.
\<close>

definition get_scaled_segmentation ::
    "annotation list option \<Rightarrow> (string \<rightharpoonup> int) \<Rightarrow> error + pynum list list option" where
  "get_scaled_segmentation annos image_dimensions =
     (case annos of
        None \<Rightarrow> Inr None
      | Some anns \<Rightarrow>
          (case image_dimensions ''height'' of
             None \<Rightarrow> Inl (KeyError ''height'')
           | Some h \<Rightarrow>
               (case image_dimensions ''width'' of
                  None \<Rightarrow> Inl (KeyError ''width'')
                | Some w \<Rightarrow>
                    (case scale_loop h w anns [] of
                       Inl e \<Rightarrow> Inl e
                     | Inr seg_array_with_cat \<Rightarrow> Inr (Some seg_array_with_cat)))))"

section \<open>Predicates and reference functions used in the statements\<close>

subsection \<open>Label discovery\<close>

text \<open>The label directory of the phase exists and holds at least one \<^verbatim>\<open>.txt\<close> file.\<close>

definition has_txt_labels :: "filesystem \<Rightarrow> string \<Rightarrow> string \<Rightarrow> bool" where
  "has_txt_labels fs dataset_path phase_name =
     (isdir fs (txt_labels_path dataset_path phase_name) \<and>
      list_ex (endswith ''.txt'') (listdir fs (txt_labels_path dataset_path phase_name)))"

subsection \<open>Indexing\<close>

text \<open>The \<^verbatim>\<open>iscrowd\<close> flag of an annotation is present and true.\<close>

definition is_crowd :: "annotation \<Rightarrow> bool" where
  "is_crowd a = (case iscrowd a of None \<Rightarrow> False | Some c \<Rightarrow> truthy c)"

text \<open>
  The keys that the indexing loop reads are present: \<^verbatim>\<open>iscrowd\<close> always, and
  \<^verbatim>\<open>image_id\<close> when the flag is false.
\<close>

definition indexable :: "annotation \<Rightarrow> bool" where
  "indexable a = (case iscrowd a of None \<Rightarrow> False | Some c \<Rightarrow> truthy c \<or> image_id a \<noteq> None)"

text \<open>The non-crowd annotations of image \<open>i\<close>, in the order of the corpus.\<close>

definition annotations_of :: "int \<Rightarrow> annotation list \<Rightarrow> annotation list" where
  "annotations_of i annos = filter (\<lambda>a. \<not> is_crowd a \<and> image_id a = Some i) annos"

text \<open>The number of annotations in all lists of an index.\<close>

definition indexed_total :: "annotation_lookup \<Rightarrow> nat" where
  "indexed_total idx = sum_list (map (\<lambda>(i, l). length l) idx)"

text \<open>The key under which an image is stored: its file name without the extension.\<close>

definition image_key :: "image_info \<Rightarrow> string option" where
  "image_key img = map_option (\<lambda>fn. fst (splitext fn)) (file_name img)"

definition has_file_name :: "image_info \<Rightarrow> bool" where
  "has_file_name img = (file_name img \<noteq> None)"

subsection \<open>Scaling\<close>

text \<open>
  The normalized polygon as the specification words it: the rings concatenated, read as
  \<open>(x, y)\<close> pairs, every \<open>x\<close> divided by the width and every \<open>y\<close> by the height,
  flattened again in the same order, after the category. The division is the
  floating-point division of the platform, \<open>float64_quotient\<close>.
\<close>

fun pairs_of :: "real list \<Rightarrow> (real \<times> real) list" where
  "pairs_of (x # y # zs) = (x, y) # pairs_of zs"
| "pairs_of zs = []"

definition spec_normalized_polygon :: "int \<Rightarrow> int \<Rightarrow> int \<Rightarrow> real list list \<Rightarrow> pynum list" where
  "spec_normalized_polygon h w c rings =
     PyInt c # concat (map (\<lambda>(x, y). [PyFloat (float64_quotient x w), PyFloat (float64_quotient y h)])
                        (pairs_of (concat rings)))"

text \<open>
  An annotation that the scaling loop accepts: both keys present and an even number of
  coordinates over all rings.
\<close>

definition well_formed_annotation :: "annotation \<Rightarrow> bool" where
  "well_formed_annotation a =
     (category_id a \<noteq> None \<and>
      (case segmentation a of None \<Rightarrow> False | Some seg \<Rightarrow> even (length (concat seg))))"

text \<open>
  The numbers for which numpy's arrays are numeric: an integer dimension that fits
  \<^verbatim>\<open>int64\<close>; a coordinate in the \<^verbatim>\<open>int64\<close> range that is an integer or a double.
\<close>

definition int64_value :: "int \<Rightarrow> bool" where
  "int64_value d = (- (2 ^ 63) \<le> d \<and> d < 2 ^ 63)"

definition numpy_number :: "real \<Rightarrow> bool" where
  "numpy_number x = (- (2 ^ 63) \<le> x \<and> x < 2 ^ 63 \<and> (x \<in> \<int> \<or> float64_round x = x))"

definition numeric_annotation :: "annotation \<Rightarrow> bool" where
  "numeric_annotation a =
     (case segmentation a of None \<Rightarrow> True | Some seg \<Rightarrow> list_all numpy_number (concat seg))"

definition numeric_dimensions :: "(string \<rightharpoonup> int) \<Rightarrow> bool" where
  "numeric_dimensions image_dimensions =
     ((case image_dimensions ''height'' of None \<Rightarrow> True | Some h \<Rightarrow> int64_value h) \<and>
      (case image_dimensions ''width'' of None \<Rightarrow> True | Some w \<Rightarrow> int64_value w))"

definition has_keys :: "annotation \<Rightarrow> bool" where
  "has_keys a = (category_id a \<noteq> None \<and> segmentation a \<noteq> None)"

definition has_dimensions :: "(string \<rightharpoonup> int) \<Rightarrow> bool" where
  "has_dimensions image_dimensions =
     (image_dimensions ''height'' \<noteq> None \<and> image_dimensions ''width'' \<noteq> None)"

text \<open>Every \<open>x\<close> of a flat point list lies in \<open>[0, w]\<close> and every \<open>y\<close> in \<open>[0, h]\<close>.\<close>

fun coords_in_bounds :: "int \<Rightarrow> int \<Rightarrow> real list \<Rightarrow> bool" where
  "coords_in_bounds h w (x # y # zs) =
     (0 \<le> x \<and> x \<le> real_of_int w \<and> 0 \<le> y \<and> y \<le> real_of_int h \<and> coords_in_bounds h w zs)"
| "coords_in_bounds h w [x] = (0 \<le> x \<and> x \<le> real_of_int w)"
| "coords_in_bounds h w [] = True"

definition annotation_in_bounds :: "int \<Rightarrow> int \<Rightarrow> annotation \<Rightarrow> bool" where
  "annotation_in_bounds h w a =
     (case segmentation a of None \<Rightarrow> True | Some seg \<Rightarrow> coords_in_bounds h w (concat seg))"

subsection \<open>Sample inputs\<close>

text \<open>
  A small corpus on which the functions are run: three images, two of which share the
  name \<^verbatim>\<open>img001\<close> up to the extension, and four annotations, one of them a crowd.
\<close>

definition example_images :: "image_info list" where
  "example_images =
     [\<lparr>file_name = Some ''img001.jpg'', height = Some 480, width = Some 640, image_ident = Some 1\<rparr>,
      \<lparr>file_name = Some ''img002.jpg'', height = Some 480, width = Some 640, image_ident = Some 2\<rparr>,
      \<lparr>file_name = Some ''img001.png'', height = Some 100, width = Some 200, image_ident = Some 3\<rparr>]"

definition example_annotations :: "annotation list" where
  "example_annotations =
     [\<lparr>image_id = Some 1, category_id = Some 3, iscrowd = Some 0,
       segmentation = Some [[0, 0, 320, 0, 320, 240]]\<rparr>,
      \<lparr>image_id = Some 2, category_id = Some 5, iscrowd = Some 1,
       segmentation = Some []\<rparr>,
      \<lparr>image_id = Some 2, category_id = Some 4, iscrowd = Some 0,
       segmentation = Some [[10, 10, 20, 10, 20, 20]]\<rparr>,
      \<lparr>image_id = Some 1, category_id = Some 8, iscrowd = Some 0,
       segmentation = Some [[5, 5, 6, 5, 6, 6]]\<rparr>]"

definition example_corpus :: labels_data where
  "example_corpus = \<lparr>images = Some example_images, annotations = Some example_annotations\<rparr>"

text \<open>
  A corpus whose descriptors lack fields of the schema: the image has no height, width or
  identifier, the first annotation no category and no segmentation, and the crowd
  annotation has only its flag.
\<close>

definition corpus_missing_fields :: labels_data where
  "corpus_missing_fields =
     \<lparr>images = Some [\<lparr>file_name = Some ''img001.jpg'', height = None, width = None,
                       image_ident = None\<rparr>],
      annotations = Some [\<lparr>image_id = Some 1, category_id = None, iscrowd = Some 0,
                            segmentation = None\<rparr>,
                          \<lparr>image_id = None, category_id = None, iscrowd = Some 1,
                            segmentation = None\<rparr>]\<rparr>"

text \<open>
  The dimensions of a 640 by 480 image, and a file system given by its files, its
  directories and the listing that every directory has.
\<close>

definition vga :: "string \<rightharpoonup> int" where
  "vga = [''height'' \<mapsto> 480, ''width'' \<mapsto> 640]"

definition fs_with :: "string list \<Rightarrow> string list \<Rightarrow> string list \<Rightarrow> filesystem" where
  "fs_with files dirs entries =
     \<lparr>isfile = (\<lambda>p. p \<in> set files), isdir = (\<lambda>p. p \<in> set dirs), listdir = (\<lambda>p. entries)\<rparr>"

text \<open>
  Annotations for the scaling function: a polygon of two rings with an empty one after it,
  a point outside a 640 by 480 image, a point whose \<open>x\<close> is the negative double nearest
  to zero (\<open>least_double\<close> is the least positive double, what JSON \<^verbatim>\<open>5e-324\<close> decodes to),
  and a polygon with five numbers.
\<close>

definition example_polygons :: "annotation list" where
  "example_polygons =
     [\<lparr>image_id = Some 7, category_id = Some 3, iscrowd = Some 0,
       segmentation = Some [[0, 0, 320, 0], [320, 240, 0, 480]]\<rparr>,
      \<lparr>image_id = Some 7, category_id = Some 5, iscrowd = Some 0,
       segmentation = Some []\<rparr>]"

definition outside_polygon :: annotation where
  "outside_polygon =
     \<lparr>image_id = Some 7, category_id = Some 3, iscrowd = Some 0,
      segmentation = Some [[1280, - 240]]\<rparr>"

definition least_double :: real where
  "least_double = 1 / 2 ^ 1074"

definition underflow_polygon :: annotation where
  "underflow_polygon =
     \<lparr>image_id = Some 7, category_id = Some 3, iscrowd = Some 0,
      segmentation = Some [[- least_double, 0]]\<rparr>"

definition odd_polygon :: annotation where
  "odd_polygon =
     \<lparr>image_id = Some 7, category_id = Some 4, iscrowd = Some 0,
      segmentation = Some [[0, 0, 320], [10, 20]]\<rparr>"

section \<open>Properties of label discovery\<close>

lemma filter_nonempty_list_ex: "(filter P xs \<noteq> []) = list_ex P xs"
  by (induction xs) auto

lemma find_labels_path_char:
  "find_labels_path fs d p =
     (if has_txt_labels fs d p then Inr (txt_labels_path d p, ''txt'') else Inl FileNotFoundError)"
  by (simp add: find_labels_path_def has_txt_labels_def filter_nonempty_list_ex Let_def)

lemma example_paths:
  "json_labels_path ''data/coco'' ''val'' = ''data/coco/annotations/instances_val.json''"
  "txt_labels_path ''data/coco'' ''val'' = ''data/coco/labels/val''"
  by (simp_all add: json_labels_path_def txt_labels_path_def path_join_def
      startswith_def endswith_def)

text \<open>
  C9: when neither the JSON annotation file of the phase nor a label directory with at
  least one \<^verbatim>\<open>.txt\<close> file exists, \<^verbatim>\<open>find_labels_path\<close> raises its
  \<^verbatim>\<open>FileNotFoundError("No labels found ...")\<close>, the specification's
  \<^verbatim>\<open>LabelsNotFoundError\<close>; when it returns, the format tag is \<^verbatim>\<open>"json"\<close> or \<^verbatim>\<open>"txt"\<close>.
\<close>

theorem find_labels_path_not_found:
  "(\<not> isfile fs (json_labels_path d p) \<and> \<not> has_txt_labels fs d p
      \<longrightarrow> find_labels_path fs d p = Inl FileNotFoundError)
   \<and> (\<forall>loc tag. find_labels_path fs d p = Inr (loc, tag) \<longrightarrow> tag \<in> {''json'', ''txt''})"
  by (simp add: find_labels_path_char)

theorem find_labels_path_not_found_witness:
  "\<not> isfile (fs_with [] [] []) (json_labels_path ''data/coco'' ''val'')
   \<and> \<not> has_txt_labels (fs_with [] [] []) ''data/coco'' ''val''
   \<and> find_labels_path (fs_with [] [] []) ''data/coco'' ''val'' = Inl FileNotFoundError
   \<and> (\<exists>tag. find_labels_path (fs_with [] [''data/coco/labels/val''] [''000001.txt'', ''readme.md''])
          ''data/coco'' ''val'' = Inr (''data/coco/labels/val'', tag)
        \<and> tag \<in> {''json'', ''txt''})"
proof -
  have a: "\<not> isfile (fs_with [] [] []) (json_labels_path ''data/coco'' ''val'')"
    by (simp add: fs_with_def)
  have b: "\<not> has_txt_labels (fs_with [] [] []) ''data/coco'' ''val''"
    by (simp add: fs_with_def has_txt_labels_def)
  from find_labels_path_not_found [of "fs_with [] [] []" "''data/coco''" "''val''"] a b
  have c: "find_labels_path (fs_with [] [] []) ''data/coco'' ''val'' = Inl FileNotFoundError"
    by blast
  have d: "find_labels_path (fs_with [] [''data/coco/labels/val''] [''000001.txt'', ''readme.md''])
          ''data/coco'' ''val'' = Inr (''data/coco/labels/val'', ''txt'')"
    by (simp add: find_labels_path_def fs_with_def example_paths endswith_def)
  from find_labels_path_not_found
      [of "fs_with [] [''data/coco/labels/val''] [''000001.txt'', ''readme.md'']"
          "''data/coco''" "''val''"] d
  have e: "''txt'' \<in> {''json'', ''txt''}"
    by blast
  from a b c d e show ?thesis by blast
qed

text \<open>
  C10: whatever the file system holds, a call of \<^verbatim>\<open>find_labels_path\<close> that returns has
  the tag \<^verbatim>\<open>"txt"\<close> (and the label directory as location), never \<^verbatim>\<open>"json"\<close>: the JSON
  branch is switched off by \<^verbatim>\<open>and False\<close>. When the label directory is missing or holds
  no \<^verbatim>\<open>.txt\<close> file the call raises, also when the JSON annotation file exists.
\<close>

theorem find_labels_path_only_txt:
  "(\<forall>loc tag. find_labels_path fs d p = Inr (loc, tag)
       \<longrightarrow> tag = ''txt'' \<and> tag \<noteq> ''json'' \<and> loc = txt_labels_path d p)
   \<and> (\<not> isdir fs (txt_labels_path d p)
        \<or> filter (endswith ''.txt'') (listdir fs (txt_labels_path d p)) = []
       \<longrightarrow> find_labels_path fs d p = Inl FileNotFoundError)"
  by (auto simp add: find_labels_path_def Let_def)

theorem find_labels_path_only_txt_witness:
  "isfile (fs_with [''data/coco/annotations/instances_val.json''] [] [])
      (json_labels_path ''data/coco'' ''val'')
   \<and> find_labels_path (fs_with [''data/coco/annotations/instances_val.json''] [] [])
        ''data/coco'' ''val'' = Inl FileNotFoundError
   \<and> find_labels_path
        (fs_with [''data/coco/annotations/instances_val.json''] [''data/coco/labels/val'']
           [''notes.md''])
        ''data/coco'' ''val'' = Inl FileNotFoundError
   \<and> find_labels_path
        (fs_with [''data/coco/annotations/instances_val.json''] [''data/coco/labels/val'']
           [''000001.txt''])
        ''data/coco'' ''val'' = Inr (txt_labels_path ''data/coco'' ''val'', ''txt'')"
proof -
  let ?json = "''data/coco/annotations/instances_val.json''"
  let ?dir = "''data/coco/labels/val''"
  have a: "isfile (fs_with [?json] [] []) (json_labels_path ''data/coco'' ''val'')"
    by (simp add: fs_with_def example_paths)
  have "\<not> isdir (fs_with [?json] [] []) (txt_labels_path ''data/coco'' ''val'')"
    by (simp add: fs_with_def)
  with find_labels_path_only_txt [of "fs_with [?json] [] []" "''data/coco''" "''val''"]
  have b: "find_labels_path (fs_with [?json] [] []) ''data/coco'' ''val'' = Inl FileNotFoundError"
    by blast
  have "filter (endswith ''.txt'')
      (listdir (fs_with [?json] [?dir] [''notes.md'']) (txt_labels_path ''data/coco'' ''val'')) = []"
    by (simp add: fs_with_def endswith_def)
  with find_labels_path_only_txt [of "fs_with [?json] [?dir] [''notes.md'']" "''data/coco''" "''val''"]
  have c: "find_labels_path (fs_with [?json] [?dir] [''notes.md'']) ''data/coco'' ''val''
      = Inl FileNotFoundError"
    by blast
  have "\<exists>loc tag. find_labels_path (fs_with [?json] [?dir] [''000001.txt'']) ''data/coco'' ''val''
      = Inr (loc, tag)"
    by (simp add: find_labels_path_def fs_with_def example_paths endswith_def)
  with find_labels_path_only_txt [of "fs_with [?json] [?dir] [''000001.txt'']" "''data/coco''" "''val''"]
  have d: "find_labels_path (fs_with [?json] [?dir] [''000001.txt'']) ''data/coco'' ''val''
      = Inr (txt_labels_path ''data/coco'' ''val'', ''txt'')"
    by blast
  from a b c d show ?thesis by blast
qed

section \<open>Properties of the annotation index\<close>

lemma indexed_total_update_new:
  "map_of al i = None \<Longrightarrow> indexed_total (AList.update i [] al) = indexed_total al"
  by (induction al) (auto simp: indexed_total_def split: if_splits)

lemma indexed_total_map_entry:
  "map_of al i \<noteq> None \<Longrightarrow>
   indexed_total (AList.map_entry i (\<lambda>l. l @ [a]) al) = Suc (indexed_total al)"
  by (induction al) (auto simp: indexed_total_def split: if_splits)

lemma index_step_total:
  "indexed_total (AList.map_entry i (\<lambda>l. l @ [a])
      (if map_of al i = None then AList.update i [] al else al)) = Suc (indexed_total al)"
  by (simp add: indexed_total_map_entry indexed_total_update_new update_conv')

lemma index_step_distinct:
  "distinct (map fst al) \<Longrightarrow>
   distinct (map fst (AList.map_entry i (\<lambda>l. l @ [a])
      (if map_of al i = None then AList.update i [] al else al)))"
  by (simp add: distinct_map_entry distinct_update)

lemma index_step_map_of:
  "map_of (AList.map_entry i (\<lambda>l. l @ [a])
      (if map_of al i = None then AList.update i [] al else al)) k =
   (if k = i then Some ((case map_of al i of None \<Rightarrow> [] | Some l \<Rightarrow> l) @ [a]) else map_of al k)"
  by (auto simp: map_of_map_entry update_conv' split: option.splits)

lemma index_loop_returns:
  "list_all indexable annos \<Longrightarrow> \<exists>idx. index_loop annos acc = Inr idx"
  by (induction annos arbitrary: acc)
     (auto simp: indexable_def Let_def split: option.splits)

lemma index_loop_raises:
  "\<not> list_all indexable annos \<Longrightarrow>
   index_loop annos acc = Inl (KeyError ''iscrowd'') \<or> index_loop annos acc = Inl (KeyError ''image_id'')"
  by (induction annos arbitrary: acc)
     (auto simp: indexable_def Let_def split: option.splits)

lemma annotations_of_Cons:
  "annotations_of k (a # annos) =
     (if \<not> is_crowd a \<and> image_id a = Some k then a # annotations_of k annos
      else annotations_of k annos)"
  by (simp add: annotations_of_def)

lemma index_loop_Cons_Inr:
  assumes "index_loop (a # annos) acc = Inr idx"
  obtains (crowd) "is_crowd a" "index_loop annos acc = Inr idx"
  | (indexed) i where "\<not> is_crowd a" "image_id a = Some i"
      "index_loop annos (AList.map_entry i (\<lambda>l. l @ [a])
          (if map_of acc i = None then AList.update i [] acc else acc)) = Inr idx"
  using assms
  by (auto simp: is_crowd_def Let_def split: option.splits if_splits)

lemma index_loop_distinct:
  "index_loop annos acc = Inr idx \<Longrightarrow> distinct (map fst acc) \<Longrightarrow> distinct (map fst idx)"
proof (induction annos arbitrary: acc)
  case Nil
  then show ?case by simp
next
  case (Cons a annos)
  from Cons.prems(1) show ?case
  proof (cases rule: index_loop_Cons_Inr)
    case crowd
    with Cons show ?thesis by blast
  next
    case (indexed i)
    from Cons.IH [OF indexed(3) index_step_distinct [OF Cons.prems(2)]] show ?thesis .
  qed
qed

lemma index_loop_total:
  "index_loop annos acc = Inr idx \<Longrightarrow>
   indexed_total idx = indexed_total acc + length (filter (\<lambda>a. \<not> is_crowd a) annos)"
proof (induction annos arbitrary: acc)
  case Nil
  then show ?case by simp
next
  case (Cons a annos)
  from Cons.prems show ?case
  proof (cases rule: index_loop_Cons_Inr)
    case crowd
    with Cons.IH [OF crowd(2)] show ?thesis by simp
  next
    case (indexed i)
    with Cons.IH [OF indexed(3)] show ?thesis
      by (simp add: index_step_total)
  qed
qed

lemma index_loop_map_of:
  "index_loop annos acc = Inr idx \<Longrightarrow>
   map_of idx k =
     (case map_of acc k of
        None \<Rightarrow> (if annotations_of k annos = [] then None else Some (annotations_of k annos))
      | Some l \<Rightarrow> Some (l @ annotations_of k annos))"
proof (induction annos arbitrary: acc)
  case Nil
  then show ?case by (simp add: annotations_of_def split: option.splits)
next
  case (Cons a annos)
  from Cons.prems show ?case
  proof (cases rule: index_loop_Cons_Inr)
    case crowd
    with Cons.IH [OF crowd(2)] show ?thesis
      by (simp add: annotations_of_Cons split: option.splits)
  next
    case (indexed i)
    with Cons.IH [OF indexed(3)] show ?thesis
      by (simp add: index_step_map_of annotations_of_Cons split: option.splits)
  qed
qed

lemma splitext_examples:
  "splitext ''img001.jpg'' = (''img001'', ''.jpg'')"
  "splitext ''img002.jpg'' = (''img002'', ''.jpg'')"
  "splitext ''img001.png'' = (''img001'', ''.png'')"
  by code_simp+

lemma example_index:
  "index_annotations_by_image example_corpus =
     Inr [(1, [example_annotations ! 0, example_annotations ! 3]),
          (2, [example_annotations ! 2])]"
  by (simp add: example_corpus_def example_annotations_def index_annotations_by_image_def
      truthy_def)

text \<open>
  C1: for a corpus whose annotations carry the keys that the loop reads,
  \<^verbatim>\<open>index_annotations_by_image\<close> returns an index in which no crowd annotation occurs;
  the list stored under an image id is exactly the non-crowd annotations of that image in
  corpus order (and an image id without such annotations has no entry); every non-crowd
  annotation is in the list of its \<^verbatim>\<open>image_id\<close>; and the number of indexed annotations
  is the number of annotations minus the crowd-flagged ones.
\<close>

theorem index_annotations_by_image_correct:
  assumes annos: "annotations data = Some annos" and ok: "list_all indexable annos"
  shows "\<exists>idx. index_annotations_by_image data = Inr idx
     \<and> distinct (map fst idx)
     \<and> (\<forall>(i, l)\<in>set idx. \<forall>a\<in>set l. \<not> is_crowd a \<and> image_id a = Some i \<and> a \<in> set annos)
     \<and> (\<forall>i. map_of idx i =
            (if annotations_of i annos = [] then None else Some (annotations_of i annos)))
     \<and> (\<forall>a\<in>set annos. \<not> is_crowd a \<longrightarrow>
            (\<exists>i l. image_id a = Some i \<and> map_of idx i = Some l \<and> a \<in> set l))
     \<and> indexed_total idx = length annos - length (filter is_crowd annos)"
proof -
  from index_loop_returns [OF ok, of "[]"] obtain idx where loop: "index_loop annos [] = Inr idx"
    by blast
  with annos have res: "index_annotations_by_image data = Inr idx"
    by (simp add: index_annotations_by_image_def)
  from index_loop_distinct [OF loop] have dist: "distinct (map fst idx)" by simp
  have lookup: "map_of idx i =
      (if annotations_of i annos = [] then None else Some (annotations_of i annos))" for i
    using index_loop_map_of [OF loop, of i] by simp
  have members: "\<not> is_crowd a \<and> image_id a = Some i \<and> a \<in> set annos"
    if "(i, l) \<in> set idx" and "a \<in> set l" for i l a
  proof -
    from that(1) dist have "map_of idx i = Some l" by simp
    with lookup [of i] have "l = annotations_of i annos"
      by (simp split: if_splits)
    with that(2) show ?thesis by (simp add: annotations_of_def)
  qed
  have complete: "\<exists>i l. image_id a = Some i \<and> map_of idx i = Some l \<and> a \<in> set l"
    if a: "a \<in> set annos" and nc: "\<not> is_crowd a" for a
  proof -
    from ok a have "indexable a" by (simp add: list_all_iff)
    with nc obtain i where i: "image_id a = Some i"
      by (auto simp: indexable_def is_crowd_def split: option.splits)
    with a nc have "a \<in> set (annotations_of i annos)"
      by (simp add: annotations_of_def)
    with lookup [of i] i show ?thesis by auto
  qed
  have "length (filter is_crowd annos) + length (filter (\<lambda>a. \<not> is_crowd a) annos) = length annos"
    by (rule sum_length_filter_compl)
  with index_loop_total [OF loop]
  have total: "indexed_total idx = length annos - length (filter is_crowd annos)"
    by (simp add: indexed_total_def)
  from res dist members lookup complete total show ?thesis by blast
qed

theorem index_annotations_by_image_correct_witness:
  "annotations example_corpus = Some example_annotations
   \<and> list_all indexable example_annotations
   \<and> index_annotations_by_image example_corpus =
       Inr [(1, [example_annotations ! 0, example_annotations ! 3]),
            (2, [example_annotations ! 2])]
   \<and> indexed_total [(1, [example_annotations ! 0, example_annotations ! 3]),
                     (2, [example_annotations ! 2])]
       = length example_annotations - length (filter is_crowd example_annotations)"
proof -
  have a: "annotations example_corpus = Some example_annotations"
    by (simp add: example_corpus_def)
  have ok: "list_all indexable example_annotations"
    by (simp add: example_annotations_def indexable_def truthy_def)
  from index_annotations_by_image_correct [OF a ok] obtain idx
    where "index_annotations_by_image example_corpus = Inr idx"
      and "indexed_total idx
        = length example_annotations - length (filter is_crowd example_annotations)"
    by blast
  with a ok show ?thesis
    by (simp add: example_index)
qed

section \<open>Properties of the image dictionary\<close>

lemma image_info_loop_returns:
  "list_all has_file_name imgs \<Longrightarrow> \<exists>d. image_info_loop imgs d0 = Inr d"
  by (induction imgs arbitrary: d0) (auto simp: has_file_name_def)

lemma image_info_loop_raises:
  "\<not> list_all has_file_name imgs \<Longrightarrow> image_info_loop imgs d0 = Inl (KeyError ''file_name'')"
  by (induction imgs arbitrary: d0) (auto simp: has_file_name_def split: option.splits)

lemma image_info_loop_Cons_Inr:
  assumes "image_info_loop (img # imgs) d0 = Inr d"
  obtains k where "image_key img = Some k"
    and "image_info_loop imgs (AList.update k img d0) = Inr d"
  using assms by (auto simp: image_key_def split: option.splits)

lemma image_info_loop_has_file_name:
  "image_info_loop imgs d0 = Inr d \<Longrightarrow> list_all has_file_name imgs"
  using image_info_loop_raises [of imgs d0] by auto

lemma image_info_loop_distinct:
  "image_info_loop imgs d0 = Inr d \<Longrightarrow> distinct (map fst d0) \<Longrightarrow> distinct (map fst d)"
proof (induction imgs arbitrary: d0)
  case Nil
  then show ?case by simp
next
  case (Cons img imgs)
  from Cons.prems(1) obtain k where "image_info_loop imgs (AList.update k img d0) = Inr d"
    by (rule image_info_loop_Cons_Inr)
  from Cons.IH [OF this] Cons.prems(2) show ?case
    by (simp add: distinct_update)
qed

lemma image_info_loop_keys:
  "image_info_loop imgs d0 = Inr d \<Longrightarrow>
   Some ` fst ` set d = Some ` fst ` set d0 \<union> image_key ` set imgs"
proof (induction imgs arbitrary: d0)
  case Nil
  then show ?case by simp
next
  case (Cons img imgs)
  from Cons.prems(1) obtain k where k: "image_key img = Some k"
    and rest: "image_info_loop imgs (AList.update k img d0) = Inr d"
    by (rule image_info_loop_Cons_Inr)
  from Cons.IH [OF rest] k show ?case
    by (auto simp: dom_update)
qed

lemma image_info_loop_map_of:
  "image_info_loop imgs d0 = Inr d \<Longrightarrow>
   map_of d k =
     (case map_of (rev (map (\<lambda>img. (image_key img, img)) imgs)) (Some k) of
        None \<Rightarrow> map_of d0 k
      | Some img \<Rightarrow> Some img)"
proof (induction imgs arbitrary: d0)
  case Nil
  then show ?case by simp
next
  case (Cons img imgs)
  from Cons.prems(1) obtain k' where k': "image_key img = Some k'"
    and rest: "image_info_loop imgs (AList.update k' img d0) = Inr d"
    by (rule image_info_loop_Cons_Inr)
  from Cons.IH [OF rest] k' show ?case
    by (auto simp: update_conv' map_add_def split: option.splits)
qed

lemma map_of_rev_last:
  assumes "\<forall>y\<in>set ys. f y \<noteq> f x"
  shows "map_of (rev (map (\<lambda>z. (f z, z)) (xs @ x # ys))) (f x) = Some x"
proof -
  have "map_of (rev (map (\<lambda>z. (f z, z)) ys)) (f x) = None"
    using assms by (auto simp: map_of_eq_None_iff image_iff)
  then show ?thesis
    by (simp add: map_add_def)
qed

lemma image_info_loop_last_wins:
  assumes loop: "image_info_loop imgs [] = Inr d" and j: "j < length imgs"
    and last: "\<forall>m<length imgs. j < m \<longrightarrow> image_key (imgs ! m) \<noteq> image_key (imgs ! j)"
  shows "\<exists>k. image_key (imgs ! j) = Some k \<and> map_of d k = Some (imgs ! j)"
proof -
  from image_info_loop_has_file_name [OF loop] j have "has_file_name (imgs ! j)"
    by (simp add: list_all_length)
  then obtain k where k: "image_key (imgs ! j) = Some k"
    by (auto simp: has_file_name_def image_key_def)
  have split: "imgs = take j imgs @ imgs ! j # drop (Suc j) imgs"
    using j by (rule id_take_nth_drop)
  have "\<forall>y\<in>set (drop (Suc j) imgs). image_key y \<noteq> image_key (imgs ! j)"
  proof
    fix y assume "y \<in> set (drop (Suc j) imgs)"
    then obtain n where n: "n < length imgs - Suc j" and y: "y = drop (Suc j) imgs ! n"
      by (auto simp: in_set_conv_nth)
    then have "y = imgs ! (Suc j + n)" by simp
    with last n show "image_key y \<noteq> image_key (imgs ! j)" by simp
  qed
  from map_of_rev_last [OF this, of "take j imgs"]
  have "map_of (rev (map (\<lambda>z. (image_key z, z)) imgs)) (image_key (imgs ! j)) = Some (imgs ! j)"
    using split by simp
  with image_info_loop_map_of [OF loop, of k] k show ?thesis by simp
qed

lemma image_info_loop_entries:
  assumes loop: "image_info_loop imgs [] = Inr d" and kv: "(k, v) \<in> set d"
  shows "v \<in> set imgs \<and> (\<exists>fn. file_name v = Some fn \<and> k = fst (splitext fn))"
proof -
  from image_info_loop_distinct [OF loop] have "distinct (map fst d)" by simp
  with kv have "map_of d k = Some v" by simp
  with image_info_loop_map_of [OF loop, of k]
  have "map_of (rev (map (\<lambda>img. (image_key img, img)) imgs)) (Some k) = Some v"
    by (simp split: option.splits)
  then have "(Some k, v) \<in> set (rev (map (\<lambda>img. (image_key img, img)) imgs))"
    by (rule map_of_SomeD)
  then show ?thesis
    by (cases "file_name v") (auto simp: image_key_def)
qed

lemma image_info_loop_length:
  assumes loop: "image_info_loop imgs [] = Inr d"
  shows "length d = card (image_key ` set imgs)"
proof -
  from image_info_loop_distinct [OF loop] have "distinct (map fst d)" by simp
  then have "length d = card (fst ` set d)"
    using distinct_card [of "map fst d"] by simp
  also have "\<dots> = card (Some ` fst ` set d)"
    by (simp add: card_image)
  also have "\<dots> = card (image_key ` set imgs)"
    using image_info_loop_keys [OF loop] by simp
  finally show ?thesis .
qed

lemma example_image_info_dict:
  "create_image_info_dict example_corpus =
     Inr ([(1, [example_annotations ! 0, example_annotations ! 3]),
           (2, [example_annotations ! 2])],
          [(''img001'', example_images ! 2), (''img002'', example_images ! 1)])"
  by (simp add: create_image_info_dict_def example_index)
     (simp add: example_corpus_def example_images_def splitext_examples)

text \<open>
  C8: when \<^verbatim>\<open>create_image_info_dict\<close> returns, every key of the image dictionary is the
  \<^verbatim>\<open>file_name\<close> of one of the images with its extension removed and maps to that image's
  record; when the stripped names of the images differ pairwise, there are as many keys as
  images; and the last image with a given stripped name is the one stored under it. The
  call returns whenever the annotation index is built and every image has a
  \<^verbatim>\<open>file_name\<close>, colliding names or not.
\<close>

theorem image_info_dict_keys:
  assumes imgs: "images data = Some imgs"
  shows "(index_annotations_by_image data = Inr idx \<and> list_all has_file_name imgs
            \<longrightarrow> (\<exists>d. create_image_info_dict data = Inr (idx, d)))
     \<and> (\<forall>d. create_image_info_dict data = Inr (idx, d) \<longrightarrow>
           distinct (map fst d)
         \<and> (\<forall>(k, v)\<in>set d. v \<in> set imgs \<and> (\<exists>fn. file_name v = Some fn \<and> k = fst (splitext fn)))
         \<and> (distinct (map image_key imgs) \<longrightarrow> length d = length imgs)
         \<and> (\<forall>j<length imgs.
               (\<forall>m<length imgs. j < m \<longrightarrow> image_key (imgs ! m) \<noteq> image_key (imgs ! j))
               \<longrightarrow> (\<exists>k. image_key (imgs ! j) = Some k \<and> map_of d k = Some (imgs ! j))))"
proof (intro conjI impI allI)
  assume "index_annotations_by_image data = Inr idx \<and> list_all has_file_name imgs"
  then show "\<exists>d. create_image_info_dict data = Inr (idx, d)"
    using image_info_loop_returns [of imgs "[]"] imgs
    by (auto simp: create_image_info_dict_def)
next
  fix d
  assume res: "create_image_info_dict data = Inr (idx, d)"
  with imgs have loop: "image_info_loop imgs [] = Inr d"
    by (auto simp: create_image_info_dict_def split: sum.splits)
  from image_info_loop_distinct [OF loop] show "distinct (map fst d)" by simp
  from image_info_loop_entries [OF loop]
  show "\<forall>(k, v)\<in>set d. v \<in> set imgs \<and> (\<exists>fn. file_name v = Some fn \<and> k = fst (splitext fn))"
    by blast
  show "length d = length imgs" if "distinct (map image_key imgs)"
    using image_info_loop_length [OF loop] distinct_card [OF that] by simp
  show "\<exists>k. image_key (imgs ! j) = Some k \<and> map_of d k = Some (imgs ! j)"
    if "j < length imgs"
      and "\<forall>m<length imgs. j < m \<longrightarrow> image_key (imgs ! m) \<noteq> image_key (imgs ! j)" for j
    using image_info_loop_last_wins [OF loop that] .
qed

theorem image_info_dict_keys_witness:
  "images example_corpus = Some example_images
   \<and> list_all has_file_name example_images
   \<and> create_image_info_dict example_corpus =
       Inr ([(1, [example_annotations ! 0, example_annotations ! 3]),
             (2, [example_annotations ! 2])],
            [(''img001'', example_images ! 2), (''img002'', example_images ! 1)])
   \<and> image_key (example_images ! 0) = image_key (example_images ! 2)
   \<and> map_of [(''img001'', example_images ! 2), (''img002'', example_images ! 1)] ''img001''
       = Some (example_images ! 2)
   \<and> distinct (map image_key (take 2 example_images))
   \<and> create_image_info_dict \<lparr>images = Some (take 2 example_images), annotations = Some []\<rparr>
       = Inr ([], [(''img001'', example_images ! 0), (''img002'', example_images ! 1)])
   \<and> length [(''img001'', example_images ! 0), (''img002'', example_images ! 1)]
       = length (take 2 example_images)"
proof -
  have imgs: "images example_corpus = Some example_images"
    by (simp add: example_corpus_def)
  have names: "list_all has_file_name example_images"
    by (simp add: example_images_def has_file_name_def)
  have key0: "image_key (example_images ! 0) = Some ''img001''"
    and key1: "image_key (example_images ! 1) = Some ''img002''"
    and key2: "image_key (example_images ! 2) = Some ''img001''"
    by (simp_all add: example_images_def image_key_def splitext_examples)
  have last: "\<forall>m<length example_images.
      2 < m \<longrightarrow> image_key (example_images ! m) \<noteq> image_key (example_images ! 2)"
    by (simp add: example_images_def)
  have len: "2 < length example_images"
    by (simp add: example_images_def)
  from image_info_dict_keys [OF imgs] example_image_info_dict len last
  have "\<exists>k. image_key (example_images ! 2) = Some k
      \<and> map_of [(''img001'', example_images ! 2), (''img002'', example_images ! 1)] k
          = Some (example_images ! 2)"
    by blast
  with key2 have "map_of [(''img001'', example_images ! 2), (''img002'', example_images ! 1)] ''img001''
       = Some (example_images ! 2)"
    by auto
  with imgs names example_image_info_dict key0 key2
  have first: "images example_corpus = Some example_images
   \<and> list_all has_file_name example_images
   \<and> create_image_info_dict example_corpus =
       Inr ([(1, [example_annotations ! 0, example_annotations ! 3]),
             (2, [example_annotations ! 2])],
            [(''img001'', example_images ! 2), (''img002'', example_images ! 1)])
   \<and> image_key (example_images ! 0) = image_key (example_images ! 2)
   \<and> map_of [(''img001'', example_images ! 2), (''img002'', example_images ! 1)] ''img001''
       = Some (example_images ! 2)"
    by simp
  have dist: "distinct (map image_key (take 2 example_images))"
    by (simp add: example_images_def image_key_def splitext_examples)
  have two: "create_image_info_dict \<lparr>images = Some (take 2 example_images), annotations = Some []\<rparr>
       = Inr ([], [(''img001'', example_images ! 0), (''img002'', example_images ! 1)])"
    by (simp add: create_image_info_dict_def index_annotations_by_image_def example_images_def
        splitext_examples)
  from image_info_dict_keys
    [of "\<lparr>images = Some (take 2 example_images), annotations = Some []\<rparr>"
        "take 2 example_images" "[]"] two dist
  have "length [(''img001'', example_images ! 0), (''img002'', example_images ! 1)]
       = length (take 2 example_images)"
    by simp
  with first dist two show ?thesis by blast
qed

section \<open>Errors of index construction\<close>

text \<open>
  C5, as the specification words it, asks for an error whenever a descriptor lacks a field
  of the schema. The code reads only \<^verbatim>\<open>iscrowd\<close>, \<^verbatim>\<open>image_id\<close> (of non-crowd annotations)
  and \<^verbatim>\<open>file_name\<close>: a corpus whose descriptors lack \<^verbatim>\<open>category_id\<close>, \<^verbatim>\<open>segmentation\<close>,
  \<^verbatim>\<open>height\<close>, \<^verbatim>\<open>width\<close> and the identifier is indexed without any error.
\<close>

theorem missing_fields_counterexample:
  "create_image_info_dict corpus_missing_fields =
     Inr ([(1, [\<lparr>image_id = Some 1, category_id = None, iscrowd = Some 0,
                  segmentation = None\<rparr>])],
          [(''img001'', \<lparr>file_name = Some ''img001.jpg'', height = None, width = None,
                          image_ident = None\<rparr>)])"
  by (simp add: corpus_missing_fields_def create_image_info_dict_def
      index_annotations_by_image_def truthy_def splitext_examples)

text \<open>
  C5, amended: \<^verbatim>\<open>create_image_info_dict\<close> raises \<^verbatim>\<open>KeyError\<close> and returns no index when
  the corpus lacks \<^verbatim>\<open>"annotations"\<close>; when an annotation lacks \<^verbatim>\<open>iscrowd\<close>, or lacks
  \<^verbatim>\<open>image_id\<close> while its flag is false; when, the annotations being indexed, the corpus
  lacks \<^verbatim>\<open>"images"\<close>; and when an image lacks \<^verbatim>\<open>file_name\<close>. In every other case it
  returns both dictionaries, whatever other fields are absent.
\<close>

theorem create_image_info_dict_errors:
  "(annotations data = None
      \<longrightarrow> create_image_info_dict data = Inl (KeyError ''annotations''))
   \<and> (\<forall>annos. annotations data = Some annos \<and> \<not> list_all indexable annos
      \<longrightarrow> create_image_info_dict data = Inl (KeyError ''iscrowd'')
        \<or> create_image_info_dict data = Inl (KeyError ''image_id''))
   \<and> (\<forall>annos. annotations data = Some annos \<and> list_all indexable annos \<and> images data = None
      \<longrightarrow> create_image_info_dict data = Inl (KeyError ''images''))
   \<and> (\<forall>annos imgs. annotations data = Some annos \<and> list_all indexable annos
         \<and> images data = Some imgs \<and> \<not> list_all has_file_name imgs
      \<longrightarrow> create_image_info_dict data = Inl (KeyError ''file_name''))
   \<and> (\<forall>annos imgs. annotations data = Some annos \<and> list_all indexable annos
         \<and> images data = Some imgs \<and> list_all has_file_name imgs
      \<longrightarrow> (\<exists>idx d. create_image_info_dict data = Inr (idx, d)))"
proof (intro conjI allI impI)
  assume "annotations data = None"
  then show "create_image_info_dict data = Inl (KeyError ''annotations'')"
    by (simp add: create_image_info_dict_def index_annotations_by_image_def)
next
  fix annos
  assume "annotations data = Some annos \<and> \<not> list_all indexable annos"
  then show "create_image_info_dict data = Inl (KeyError ''iscrowd'')
        \<or> create_image_info_dict data = Inl (KeyError ''image_id'')"
    using index_loop_raises [of annos "[]"]
    by (auto simp: create_image_info_dict_def index_annotations_by_image_def)
next
  fix annos
  assume "annotations data = Some annos \<and> list_all indexable annos \<and> images data = None"
  then show "create_image_info_dict data = Inl (KeyError ''images'')"
    using index_loop_returns [of annos "[]"]
    by (auto simp: create_image_info_dict_def index_annotations_by_image_def)
next
  fix annos imgs
  assume "annotations data = Some annos \<and> list_all indexable annos
         \<and> images data = Some imgs \<and> \<not> list_all has_file_name imgs"
  then show "create_image_info_dict data = Inl (KeyError ''file_name'')"
    using index_loop_returns [of annos "[]"] image_info_loop_raises [of imgs "[]"]
    by (auto simp: create_image_info_dict_def index_annotations_by_image_def)
next
  fix annos imgs
  assume "annotations data = Some annos \<and> list_all indexable annos
         \<and> images data = Some imgs \<and> list_all has_file_name imgs"
  then show "\<exists>idx d. create_image_info_dict data = Inr (idx, d)"
    using index_loop_returns [of annos "[]"] image_info_loop_returns [of imgs "[]"]
    by (auto simp: create_image_info_dict_def index_annotations_by_image_def)
qed

theorem create_image_info_dict_errors_witness:
  "create_image_info_dict \<lparr>images = Some [], annotations = None\<rparr>
     = Inl (KeyError ''annotations'')
   \<and> create_image_info_dict \<lparr>images = None, annotations = Some example_annotations\<rparr>
     = Inl (KeyError ''images'')
   \<and> create_image_info_dict
        \<lparr>images = Some [\<lparr>file_name = None, height = Some 1, width = Some 1, image_ident = Some 1\<rparr>],
         annotations = Some example_annotations\<rparr>
     = Inl (KeyError ''file_name'')
   \<and> create_image_info_dict
        \<lparr>images = Some [], annotations = Some [\<lparr>image_id = Some 1, category_id = Some 2,
             iscrowd = None, segmentation = Some []\<rparr>]\<rparr>
     = Inl (KeyError ''iscrowd'')
   \<and> create_image_info_dict
        \<lparr>images = Some [], annotations = Some [\<lparr>image_id = None, category_id = Some 2,
             iscrowd = Some 0, segmentation = Some []\<rparr>]\<rparr>
     = Inl (KeyError ''image_id'')
   \<and> (\<exists>idx d. create_image_info_dict corpus_missing_fields = Inr (idx, d))"
proof -
  have ok: "list_all indexable example_annotations"
    by (simp add: example_annotations_def indexable_def truthy_def)
  from create_image_info_dict_errors [of "\<lparr>images = Some [], annotations = None\<rparr>"]
  have a: "create_image_info_dict \<lparr>images = Some [], annotations = None\<rparr>
     = Inl (KeyError ''annotations'')"
    by simp
  from create_image_info_dict_errors
    [of "\<lparr>images = None, annotations = Some example_annotations\<rparr>"] ok
  have b: "create_image_info_dict \<lparr>images = None, annotations = Some example_annotations\<rparr>
     = Inl (KeyError ''images'')"
    by simp
  have "\<not> list_all has_file_name
      [\<lparr>file_name = None, height = Some 1, width = Some 1, image_ident = Some 1\<rparr>]"
    by (simp add: has_file_name_def)
  with create_image_info_dict_errors
    [of "\<lparr>images = Some [\<lparr>file_name = None, height = Some 1, width = Some 1,
                            image_ident = Some 1\<rparr>],
          annotations = Some example_annotations\<rparr>"] ok
  have c: "create_image_info_dict
        \<lparr>images = Some [\<lparr>file_name = None, height = Some 1, width = Some 1, image_ident = Some 1\<rparr>],
         annotations = Some example_annotations\<rparr>
     = Inl (KeyError ''file_name'')"
    by simp
  have d: "create_image_info_dict
        \<lparr>images = Some [], annotations = Some [\<lparr>image_id = Some 1, category_id = Some 2,
             iscrowd = None, segmentation = Some []\<rparr>]\<rparr>
     = Inl (KeyError ''iscrowd'')"
    by (simp add: create_image_info_dict_def index_annotations_by_image_def)
  have e: "create_image_info_dict
        \<lparr>images = Some [], annotations = Some [\<lparr>image_id = None, category_id = Some 2,
             iscrowd = Some 0, segmentation = Some []\<rparr>]\<rparr>
     = Inl (KeyError ''image_id'')"
    by (simp add: create_image_info_dict_def index_annotations_by_image_def truthy_def)
  have "list_all indexable (the (annotations corpus_missing_fields))"
    and "list_all has_file_name (the (images corpus_missing_fields))"
    by (simp_all add: corpus_missing_fields_def indexable_def truthy_def has_file_name_def)
  with create_image_info_dict_errors [of corpus_missing_fields]
  have f: "\<exists>idx d. create_image_info_dict corpus_missing_fields = Inr (idx, d)"
    by (simp add: corpus_missing_fields_def)
  from a b c d e f show ?thesis by blast
qed

section \<open>Properties of float64 rounding\<close>

lemma round_half_even_of_int: "round_half_even (of_int n) = n"
  by (simp add: round_half_even_def)

lemma round_half_even_bounds:
  "\<lfloor>y\<rfloor> \<le> round_half_even y" "round_half_even y \<le> \<lfloor>y\<rfloor> + 1"
  by (simp_all add: round_half_even_def Let_def)

lemma round_half_even_mono:
  assumes "a \<le> b"
  shows "round_half_even a \<le> round_half_even b"
proof (cases "\<lfloor>a\<rfloor> < \<lfloor>b\<rfloor>")
  case True
  have "round_half_even a \<le> \<lfloor>a\<rfloor> + 1" by (rule round_half_even_bounds)
  also from True have "\<dots> \<le> \<lfloor>b\<rfloor>" by simp
  also have "\<dots> \<le> round_half_even b" by (rule round_half_even_bounds)
  finally show ?thesis .
next
  case False
  with assms have eq: "\<lfloor>a\<rfloor> = \<lfloor>b\<rfloor>"
    using floor_mono [of a b] by simp
  with assms show ?thesis
    by (auto simp: round_half_even_def Let_def)
qed

lemma floor_log2_eq:
  assumes "0 < x"
  shows "\<lfloor>log 2 x\<rfloor> = k \<longleftrightarrow> 2 powi k \<le> x \<and> x < 2 powi (k + 1)"
proof -
  have "(2::real) powr real_of_int k = 2 powi k"
    by (simp add: powr_real_of_int')
  moreover have "(2::real) powr (real_of_int k + 1) = 2 powi (k + 1)"
    using powr_real_of_int' [of 2 "k + 1"] by simp
  ultimately show ?thesis
    using floor_log_eq_powr_iff [of x 2 k] assms by simp
qed

lemma binade_bounds:
  assumes "x \<noteq> 0"
  shows "2 powi \<lfloor>log 2 \<bar>x\<bar>\<rfloor> \<le> \<bar>x\<bar>" "\<bar>x\<bar> < 2 powi (\<lfloor>log 2 \<bar>x\<bar>\<rfloor> + 1)"
  using floor_log2_eq [of "\<bar>x\<bar>" "\<lfloor>log 2 \<bar>x\<bar>\<rfloor>"] assms by simp_all

lemma binade_mono:
  assumes "x \<noteq> 0" and "\<bar>x\<bar> \<le> \<bar>y\<bar>"
  shows "\<lfloor>log 2 \<bar>x\<bar>\<rfloor> \<le> \<lfloor>log 2 \<bar>y\<bar>\<rfloor>"
proof -
  from assms have "0 < \<bar>x\<bar>" by simp
  with assms(2) have "log 2 \<bar>x\<bar> \<le> log 2 \<bar>y\<bar>" by simp
  then show ?thesis by (rule floor_mono)
qed

lemma ulp_exponent_mono:
  "x \<noteq> 0 \<Longrightarrow> \<bar>x\<bar> \<le> \<bar>y\<bar> \<Longrightarrow> ulp_exponent x \<le> ulp_exponent y"
  using binade_mono [of x y] by (simp add: ulp_exponent_def)

lemma ulp_exponent_minus [simp]: "ulp_exponent (- x) = ulp_exponent x"
  by (simp add: ulp_exponent_def)

lemma ulp_exponent_abs [simp]: "ulp_exponent \<bar>x\<bar> = ulp_exponent x"
  by (simp add: ulp_exponent_def)

lemma float64_round_minus: "float64_round (- x) = - float64_round x"
  by (simp add: float64_round_def Let_def sgn_minus)

lemma float64_round_0 [simp]: "float64_round 0 = 0"
  by (simp add: float64_round_def)

lemma float64_round_pos:
  "0 < x \<Longrightarrow> float64_round x =
     of_int (round_half_even (x / 2 powi ulp_exponent x)) * 2 powi ulp_exponent x"
  by (simp add: float64_round_def Let_def)

lemma float64_round_nonneg: "0 \<le> x \<Longrightarrow> 0 \<le> float64_round x"
proof -
  assume x: "0 \<le> x"
  have "0 \<le> \<bar>x\<bar> / 2 powi ulp_exponent x" by simp
  then have "round_half_even 0 \<le> round_half_even (\<bar>x\<bar> / 2 powi ulp_exponent x)"
    by (rule round_half_even_mono)
  then have "0 \<le> round_half_even (\<bar>x\<bar> / 2 powi ulp_exponent x)"
    using round_half_even_of_int [of 0] by simp
  with x show ?thesis
    by (simp add: float64_round_def Let_def sgn_if)
qed

text \<open>Rounding does not cross a point of the grid of the rounded number.\<close>

lemma float64_round_le_grid:
  assumes "0 < x" and "x \<le> of_int n * 2 powi ulp_exponent x"
  shows "float64_round x \<le> of_int n * 2 powi ulp_exponent x"
proof -
  let ?p = "(2::real) powi ulp_exponent x"
  have p: "0 < ?p" by simp
  from assms(2) p have "x / ?p \<le> of_int n"
    by (simp add: field_simps)
  then have "round_half_even (x / ?p) \<le> round_half_even (of_int n)"
    by (rule round_half_even_mono)
  then have "round_half_even (x / ?p) \<le> n"
    by (simp add: round_half_even_of_int)
  then have "real_of_int (round_half_even (x / ?p)) \<le> of_int n" by simp
  with p have "of_int (round_half_even (x / ?p)) * ?p \<le> of_int n * ?p"
    by (simp add: mult_right_mono)
  with assms(1) show ?thesis by (simp add: float64_round_pos)
qed

lemma float64_round_ge_grid:
  assumes "0 < x" and "of_int n * 2 powi ulp_exponent x \<le> x"
  shows "of_int n * 2 powi ulp_exponent x \<le> float64_round x"
proof -
  let ?p = "(2::real) powi ulp_exponent x"
  have p: "0 < ?p" by simp
  from assms(2) p have "of_int n \<le> x / ?p"
    by (simp add: field_simps)
  then have "round_half_even (of_int n) \<le> round_half_even (x / ?p)"
    by (rule round_half_even_mono)
  then have "n \<le> round_half_even (x / ?p)"
    by (simp add: round_half_even_of_int)
  then have "real_of_int n \<le> of_int (round_half_even (x / ?p))" by simp
  with p have "of_int n * ?p \<le> of_int (round_half_even (x / ?p)) * ?p"
    by (simp add: mult_right_mono)
  with assms(1) show ?thesis by (simp add: float64_round_pos)
qed

lemma powi_as_grid_point:
  assumes "e \<le> k"
  shows "(2::real) powi k = of_int (2 ^ nat (k - e)) * 2 powi e"
proof -
  have "(2::real) powi k = 2 powi ((k - e) + e)" by simp
  also have "\<dots> = 2 powi (k - e) * 2 powi e"
    by (rule power_int_add) simp
  also from assms have "(2::real) powi (k - e) = 2 ^ nat (k - e)"
    by (simp add: power_int_nonneg_exp)
  finally show ?thesis by simp
qed

lemma float64_round_mono_pos:
  assumes "0 < x" and "x \<le> y"
  shows "float64_round x \<le> float64_round y"
proof -
  from assms have y: "0 < y" by simp
  from assms have le: "ulp_exponent x \<le> ulp_exponent y"
    by (intro ulp_exponent_mono) simp_all
  show ?thesis
  proof (cases "ulp_exponent x = ulp_exponent y")
    case True
    let ?p = "(2::real) powi ulp_exponent y"
    have p: "0 < ?p" by simp
    from assms(2) p have "x / ?p \<le> y / ?p"
      by (simp add: divide_right_mono)
    then have "round_half_even (x / ?p) \<le> round_half_even (y / ?p)"
      by (rule round_half_even_mono)
    then have "real_of_int (round_half_even (x / ?p)) \<le> of_int (round_half_even (y / ?p))"
      by simp
    with p have "of_int (round_half_even (x / ?p)) * ?p \<le> of_int (round_half_even (y / ?p)) * ?p"
      by (simp add: mult_right_mono)
    with assms(1) y True show ?thesis
      by (simp add: float64_round_pos)
  next
    case False
    with le have lt: "ulp_exponent x < ulp_exponent y" by simp
    let ?k = "\<lfloor>log 2 \<bar>y\<bar>\<rfloor>"
    from lt have ey: "ulp_exponent y = ?k - 52"
      by (auto simp: ulp_exponent_def max_def split: if_splits)
    from lt have kx: "\<lfloor>log 2 \<bar>x\<bar>\<rfloor> - 52 \<le> ulp_exponent x"
      by (simp add: ulp_exponent_def)
    with lt ey have kxy: "\<lfloor>log 2 \<bar>x\<bar>\<rfloor> + 1 \<le> ?k" by simp
    from assms(1) have "\<bar>x\<bar> < 2 powi (\<lfloor>log 2 \<bar>x\<bar>\<rfloor> + 1)"
      by (intro binade_bounds) simp
    also from kxy have "\<dots> \<le> 2 powi ?k"
      by (intro power_int_increasing) simp_all
    finally have xg: "x \<le> 2 powi ?k" using assms(1) by simp
    from y have gy: "2 powi ?k \<le> y"
      using binade_bounds(1) [of y] by simp
    from lt ey have "ulp_exponent x \<le> ?k" by simp
    from powi_as_grid_point [OF this] xg assms(1)
    have "float64_round x \<le> 2 powi ?k"
      using float64_round_le_grid [of x "2 ^ nat (?k - ulp_exponent x)"] by simp
    moreover from ey have "ulp_exponent y \<le> ?k" by simp
    from powi_as_grid_point [OF this] gy y
    have "2 powi ?k \<le> float64_round y"
      using float64_round_ge_grid [of y "2 ^ nat (?k - ulp_exponent y)"] by simp
    ultimately show ?thesis by simp
  qed
qed

lemma float64_round_mono:
  assumes "x \<le> y"
  shows "float64_round x \<le> float64_round y"
proof -
  consider "0 < x" | "x \<le> 0" "0 \<le> y" | "y < 0" by linarith
  then show ?thesis
  proof cases
    case 1
    from this assms show ?thesis by (rule float64_round_mono_pos)
  next
    case 2
    from 2(1) have "0 \<le> float64_round (- x)"
      by (intro float64_round_nonneg) simp
    then have "float64_round x \<le> 0" by (simp add: float64_round_minus)
    also from 2(2) have "0 \<le> float64_round y" by (rule float64_round_nonneg)
    finally show ?thesis .
  next
    case 3
    with assms have "0 < - y" "- y \<le> - x" by simp_all
    then have "float64_round (- y) \<le> float64_round (- x)"
      by (rule float64_round_mono_pos)
    then show ?thesis by (simp add: float64_round_minus)
  qed
qed

lemma ulp_exponent_le:
  assumes "x \<noteq> 0" and "\<bar>x\<bar> < 2 powi (e + 53)" and "- 1074 \<le> e"
  shows "ulp_exponent x \<le> e"
proof -
  let ?k = "\<lfloor>log 2 \<bar>x\<bar>\<rfloor>"
  have "2 powi ?k \<le> \<bar>x\<bar>" using assms(1) by (rule binade_bounds)
  also note assms(2)
  finally have "(2::real) powi ?k < 2 powi (e + 53)" .
  then have "?k < e + 53"
    using power_int_increasing [of "e + 53" ?k "2::real"] by (cases "?k < e + 53") auto
  with assms(3) show ?thesis by (simp add: ulp_exponent_def)
qed

lemma float64_round_on_grid:
  assumes "0 < x" and "ulp_exponent x \<le> e" and "x = of_int m * 2 powi e"
  shows "float64_round x = x"
proof -
  let ?u = "ulp_exponent x"
  have "(2::real) powi e = of_int (2 ^ nat (e - ?u)) * 2 powi ?u"
    using assms(2) by (rule powi_as_grid_point)
  with assms(3) have x: "x = of_int (m * 2 ^ nat (e - ?u)) * 2 powi ?u"
    by simp
  then have "x / 2 powi ?u = of_int (m * 2 ^ nat (e - ?u))"
    by (simp add: field_simps)
  then have "round_half_even (x / 2 powi ?u) = m * 2 ^ nat (e - ?u)"
    by (simp only: round_half_even_of_int)
  with assms(1) x show ?thesis
    by (simp only: float64_round_pos)
qed

lemma float64_round_representable:
  assumes "\<bar>m\<bar> < 2 ^ 53" and "- 1074 \<le> e"
  shows "float64_round (of_int m * 2 powi e) = of_int m * 2 powi e"
proof -
  have pos: "float64_round (of_int n * 2 powi e) = of_int n * 2 powi e"
    if n: "0 < n" "n < 2 ^ 53" for n :: int
  proof -
    let ?x = "real_of_int n * 2 powi e"
    from n have x: "0 < ?x" by simp
    from n(2) have "real_of_int n < 2 ^ 53"
      by (metis of_int_less_numeral_power_cancel_iff)
    then have "?x < 2 ^ 53 * 2 powi e"
      by (simp add: mult_strict_right_mono)
    also have "\<dots> = 2 powi (e + 53)"
      by (simp add: power_int_add)
    finally have "\<bar>?x\<bar> < 2 powi (e + 53)" using x by simp
    moreover from n(1) have "?x \<noteq> 0" by simp
    ultimately have "ulp_exponent ?x \<le> e"
      using assms(2) by (intro ulp_exponent_le)
    with x show ?thesis by (intro float64_round_on_grid [where m = n and e = e]) simp_all
  qed
  consider "0 < m" | "m = 0" | "m < 0" by linarith
  then show ?thesis
  proof cases
    case 1
    with assms(1) show ?thesis by (intro pos) simp_all
  next
    case 2
    then show ?thesis by simp
  next
    case 3
    with assms(1) have "float64_round (of_int (- m) * 2 powi e) = of_int (- m) * 2 powi e"
      by (intro pos) simp_all
    then have "float64_round (- (of_int m * 2 powi e)) = - (of_int m * 2 powi e)"
      by simp
    then show ?thesis by (simp only: float64_round_minus neg_equal_iff_equal)
  qed
qed

lemma float64_round_int:
  "\<bar>n\<bar> < 2 ^ 53 \<Longrightarrow> float64_round (of_int n) = of_int n"
  using float64_round_representable [of n 0] by simp

lemma float64_round_dyadic:
  "\<bar>m\<bar> < 2 ^ 53 \<Longrightarrow> n \<le> 1074 \<Longrightarrow> float64_round (of_int m / 2 ^ n) = of_int m / 2 ^ n"
  using float64_round_representable [of m "- int n"]
  by (simp add: power_int_minus field_simps)

lemma float64_round_power2:
  "float64_round (2 ^ n) = 2 ^ n"
  using float64_round_representable [of 1 "int n"] by simp

lemma float64_round_abs_le:
  assumes "\<bar>x\<bar> \<le> b" and "float64_round b = b"
  shows "\<bar>float64_round x\<bar> \<le> b"
proof -
  from assms(1) have "x \<le> b" "- b \<le> x" by simp_all
  then have "float64_round x \<le> float64_round b" "float64_round (- b) \<le> float64_round x"
    by (simp_all add: float64_round_mono)
  with assms(2) show ?thesis by (simp add: float64_round_minus)
qed

lemma float64_round_eval:
  assumes "0 < x" and "2 powi k \<le> x" and "x < 2 powi (k + 1)"
  shows "float64_round x =
     of_int (round_half_even (x / 2 powi (max (- 1074) (k - 52)))) * 2 powi (max (- 1074) (k - 52))"
proof -
  from assms have "\<lfloor>log 2 x\<rfloor> = k" by (simp add: floor_log2_eq)
  with assms(1) have "ulp_exponent x = max (- 1074) (k - 52)"
    by (simp add: ulp_exponent_def)
  with assms(1) show ?thesis by (simp add: float64_round_pos)
qed

lemma float64_round_of_int_ge_1:
  assumes "1 \<le> d"
  shows "1 \<le> float64_round (real_of_int d)"
proof -
  from assms have "(1::real) \<le> of_int d" by simp
  then have "float64_round 1 \<le> float64_round (of_int d)" by (rule float64_round_mono)
  then show ?thesis using float64_round_int [of 1] by simp
qed

lemma float64_round_of_int_abs_ge_1:
  assumes "d \<noteq> 0"
  shows "1 \<le> \<bar>float64_round (real_of_int d)\<bar>"
proof (cases "1 \<le> d")
  case True
  then show ?thesis using float64_round_of_int_ge_1 [of d] by simp
next
  case False
  with assms have "1 \<le> - d" by simp
  then have "1 \<le> float64_round (real_of_int (- d))" by (rule float64_round_of_int_ge_1)
  then show ?thesis by (simp add: float64_round_minus)
qed

lemma float64_quotient_bounded:
  assumes "\<bar>x\<bar> \<le> 2 ^ 63" and "d \<noteq> 0"
  shows "\<bar>float64_quotient x d\<bar> \<le> 2 ^ 63"
proof -
  have b: "float64_round (2 ^ 63) = 2 ^ 63" by (rule float64_round_power2)
  from assms(1) b have fx: "\<bar>float64_round x\<bar> \<le> 2 ^ 63" by (rule float64_round_abs_le)
  from assms(2) have fd: "1 \<le> \<bar>float64_round (real_of_int d)\<bar>"
    by (rule float64_round_of_int_abs_ge_1)
  have "\<bar>float64_round x / float64_round (real_of_int d)\<bar>
      = \<bar>float64_round x\<bar> / \<bar>float64_round (real_of_int d)\<bar>"
    by simp
  also from fd have "\<dots> \<le> \<bar>float64_round x\<bar> / 1"
    by (intro divide_left_mono) simp_all
  finally have "\<bar>float64_round x / float64_round (real_of_int d)\<bar> \<le> 2 ^ 63"
    using fx by simp
  from this b show ?thesis
    unfolding float64_quotient_def by (rule float64_round_abs_le)
qed

lemma np_divide_numeric:
  assumes "numpy_number x" and "d \<noteq> 0"
  shows "np_divide x d = PyFloat (float64_quotient x d)"
proof -
  from assms(1) have "\<bar>x\<bar> \<le> 2 ^ 63" by (simp add: numpy_number_def abs_le_iff)
  from float64_quotient_bounded [OF this assms(2)]
  have "\<bar>float64_quotient x d\<bar> < 2 ^ 1024"
    by (rule le_less_trans) simp
  with assms(2) show ?thesis by (simp add: np_divide_def)
qed

lemma float64_quotient_unit:
  assumes "0 \<le> x" and "x \<le> real_of_int d" and "0 < d"
  shows "0 \<le> float64_quotient x d" "float64_quotient x d \<le> 1"
proof -
  let ?fx = "float64_round x" and ?fd = "float64_round (real_of_int d)"
  from assms(3) have fd: "1 \<le> ?fd" by (intro float64_round_of_int_ge_1) simp
  from assms(1) have fx0: "0 \<le> ?fx" by (rule float64_round_nonneg)
  from assms(2) have fxd: "?fx \<le> ?fd" by (rule float64_round_mono)
  from fx0 fd have "0 \<le> ?fx / ?fd" by simp
  then have "float64_round 0 \<le> float64_round (?fx / ?fd)" by (rule float64_round_mono)
  then show "0 \<le> float64_quotient x d" by (simp add: float64_quotient_def)
  from fxd fd have "?fx / ?fd \<le> 1" by (simp add: divide_le_eq_1)
  then have "float64_round (?fx / ?fd) \<le> float64_round 1" by (rule float64_round_mono)
  then show "float64_quotient x d \<le> 1"
    using float64_round_int [of 1] by (simp add: float64_quotient_def)
qed

lemma float64_quotient_nonpos:
  assumes "x \<le> 0" and "0 < d"
  shows "float64_quotient x d \<le> 0"
proof -
  let ?fx = "float64_round x" and ?fd = "float64_round (real_of_int d)"
  from assms(2) have fd: "1 \<le> ?fd" by (intro float64_round_of_int_ge_1) simp
  from assms(1) have "?fx \<le> float64_round 0" by (rule float64_round_mono)
  with fd have "?fx / ?fd \<le> 0" by (simp add: divide_le_0_iff)
  then have "float64_round (?fx / ?fd) \<le> float64_round 0" by (rule float64_round_mono)
  then show ?thesis by (simp add: float64_quotient_def)
qed

lemma float64_quotient_ge_1:
  assumes "real_of_int d \<le> x" and "0 < d"
  shows "1 \<le> float64_quotient x d"
proof -
  let ?fx = "float64_round x" and ?fd = "float64_round (real_of_int d)"
  from assms(2) have fd: "1 \<le> ?fd" by (intro float64_round_of_int_ge_1) simp
  from assms(1) have "?fd \<le> ?fx" by (rule float64_round_mono)
  with fd have "1 \<le> ?fx / ?fd" by (simp add: le_divide_eq_1)
  then have "float64_round 1 \<le> float64_round (?fx / ?fd)" by (rule float64_round_mono)
  then show ?thesis
    using float64_round_int [of 1] by (simp add: float64_quotient_def)
qed

text \<open>Doubles and quotients that the sample inputs need.\<close>

lemma float64_round_samples:
  "float64_round 1 = 1" "float64_round 10 = 10" "float64_round 240 = 240"
  "float64_round 320 = 320" "float64_round 480 = 480" "float64_round 640 = 640"
  "float64_round 1280 = 1280" "float64_round 2 = 2" "float64_round 3 = 3"
  "float64_round (1 / 2) = 1 / 2"
  using float64_round_int [of 1] float64_round_int [of 10] float64_round_int [of 240]
    float64_round_int [of 320] float64_round_int [of 480] float64_round_int [of 640]
    float64_round_int [of 1280] float64_round_int [of 2] float64_round_int [of 3]
    float64_round_dyadic [of 1 1]
  by simp_all

lemma float64_round_third: "float64_round (1 / 3) = 6004799503160661 / 18014398509481984"
  using float64_round_eval [of "1 / 3" "- 2"]
  by (simp add: round_half_even_def)

lemma float64_round_least: "float64_round least_double = least_double"
  unfolding least_double_def
  using float64_round_dyadic [of 1 1074] by simp

lemma float64_round_underflow: "float64_round (least_double / 640) = 0"
  unfolding least_double_def
  using float64_round_eval [of "1 / 2 ^ 1074 / 640" "- 1084"]
  by (simp add: round_half_even_def power_int_minus field_simps)

lemma least_double_pos: "0 < least_double"
  by (simp add: least_double_def)

lemma least_double_less: "least_double < 1"
  by (simp add: least_double_def)

lemma float64_quotient_samples:
  "float64_quotient 0 d = 0"
  "float64_quotient 10 10 = 1"
  "float64_quotient 320 640 = 1 / 2"
  "float64_quotient 240 480 = 1 / 2"
  "float64_quotient 480 480 = 1"
  "float64_quotient 1280 640 = 2"
  "float64_quotient (- 240) 480 = - (1 / 2)"
  "float64_quotient 1 3 = 6004799503160661 / 18014398509481984"
  "float64_quotient (- least_double) 640 = 0"
  by (simp_all add: float64_quotient_def float64_round_samples float64_round_minus
      float64_round_third float64_round_least float64_round_underflow)

lemma np_divide_samples:
  "np_divide 0 10 = PyFloat 0" "np_divide 10 10 = PyFloat 1"
  "np_divide 0 640 = PyFloat 0" "np_divide 0 480 = PyFloat 0"
  "np_divide 320 640 = PyFloat (1 / 2)" "np_divide 240 480 = PyFloat (1 / 2)"
  "np_divide 480 480 = PyFloat 1"
  "np_divide 1280 640 = PyFloat 2" "np_divide (- 240) 480 = PyFloat (- (1 / 2))"
  "np_divide 1 3 = PyFloat (6004799503160661 / 18014398509481984)"
  "np_divide (- least_double) 640 = PyFloat 0"
  "np_divide 1 0 = PyNonFinite"
  by (simp_all add: np_divide_def float64_quotient_samples)

section \<open>Properties of the scaled segmentation\<close>

lemma reshape2_even:
  "even (length zs) \<Longrightarrow> reshape2 zs = Inr (pairs_of zs)"
  by (induction zs rule: reshape2.induct) auto

lemma reshape2_odd:
  "odd (length zs) \<Longrightarrow> reshape2 zs = Inl ValueError"
  by (induction zs rule: reshape2.induct) auto

lemma pairs_of_members:
  "(x, y) \<in> set (pairs_of zs) \<Longrightarrow> x \<in> set zs \<and> y \<in> set zs"
  by (induction zs rule: pairs_of.induct) auto

lemma scale_annotation_well_formed:
  assumes "category_id a = Some c" and "segmentation a = Some seg"
    and "even (length (concat seg))" and "h \<noteq> 0" and "w \<noteq> 0"
    and num: "list_all numpy_number (concat seg)"
  shows "scale_annotation h w a = Inr (spec_normalized_polygon h w c seg)"
proof -
  have eq: "map (\<lambda>(x, y). [np_divide x w, np_divide y h]) (pairs_of (concat seg))
      = map (\<lambda>(x, y). [PyFloat (float64_quotient x w), PyFloat (float64_quotient y h)])
          (pairs_of (concat seg))"
  proof (rule map_cong [OF refl])
    fix p assume p: "p \<in> set (pairs_of (concat seg))"
    obtain x y where xy: "p = (x, y)" by (cases p)
    with p have "x \<in> set (concat seg)" "y \<in> set (concat seg)"
      using pairs_of_members [of x y "concat seg"] by simp_all
    moreover from num have "\<forall>z\<in>set (concat seg). numpy_number z"
      by (simp only: list_all_iff)
    ultimately have "numpy_number x" "numpy_number y"
      by blast+
    with assms(4,5) xy
    show "(case p of (x, y) \<Rightarrow> [np_divide x w, np_divide y h])
        = (case p of (x, y) \<Rightarrow> [PyFloat (float64_quotient x w), PyFloat (float64_quotient y h)])"
      by (simp add: np_divide_numeric)
  qed
  from assms(1,2,3) show ?thesis
    by (simp add: scale_annotation_def spec_normalized_polygon_def reshape2_even eq)
qed

lemma scale_annotation_returns:
  "well_formed_annotation a \<Longrightarrow> \<exists>p. scale_annotation h w a = Inr p"
  by (auto simp: well_formed_annotation_def scale_annotation_def reshape2_even
      split: option.splits)

lemma scale_annotation_Inr_well_formed:
  "scale_annotation h w a = Inr p \<Longrightarrow> well_formed_annotation a"
  by (cases "even (length (concat (the (segmentation a))))")
     (auto simp: well_formed_annotation_def scale_annotation_def reshape2_odd
      split: option.splits)

lemma scale_annotation_odd:
  assumes "segmentation a = Some seg" and "odd (length (concat seg))"
  shows "scale_annotation h w a =
     (if category_id a = None then Inl (KeyError ''category_id'') else Inl ValueError)"
  using assms by (auto simp: scale_annotation_def reshape2_odd split: option.splits)

lemma scale_loop_acc:
  "scale_loop h w annos acc =
     (case scale_loop h w annos [] of Inl e \<Rightarrow> Inl e | Inr out \<Rightarrow> Inr (acc @ out))"
proof (induction annos arbitrary: acc)
  case Nil
  then show ?case by simp
next
  case (Cons a annos)
  show ?case
  proof (cases "scale_annotation h w a")
    case (Inl e)
    then show ?thesis by simp
  next
    case (Inr p)
    then show ?thesis
      using Cons.IH [of "acc @ [p]"] Cons.IH [of "[p]"]
      by (simp split: sum.splits)
  qed
qed

lemma scale_loop_Cons:
  "scale_loop h w (a # annos) [] =
     (case scale_annotation h w a of
        Inl e \<Rightarrow> Inl e
      | Inr p \<Rightarrow> (case scale_loop h w annos [] of Inl e \<Rightarrow> Inl e | Inr out \<Rightarrow> Inr (p # out)))"
  using scale_loop_acc [of h w annos "[p]" for p]
  by (simp split: sum.splits)

lemma scale_loop_Inr_iff:
  "scale_loop h w annos [] = Inr out \<longleftrightarrow>
     list_all2 (\<lambda>a p. scale_annotation h w a = Inr p) annos out"
proof (induction annos arbitrary: out)
  case Nil
  then show ?case by auto
next
  case (Cons a annos)
  have "scale_loop h w (a # annos) [] = Inr out \<longleftrightarrow>
      (\<exists>p zs. scale_annotation h w a = Inr p \<and> scale_loop h w annos [] = Inr zs \<and> out = p # zs)"
    by (auto simp: scale_loop_Cons simp del: scale_loop.simps(2) split: sum.splits)
  also have "\<dots> \<longleftrightarrow> list_all2 (\<lambda>a p. scale_annotation h w a = Inr p) (a # annos) out"
    by (auto simp: list_all2_Cons1 Cons.IH)
  finally show ?case .
qed

lemma scale_loop_returns:
  "list_all well_formed_annotation annos \<Longrightarrow> \<exists>out. scale_loop h w annos [] = Inr out"
proof (induction annos)
  case Nil
  then show ?case by simp
next
  case (Cons a annos)
  then show ?case
    using scale_annotation_returns [of a h w]
    by (auto simp: scale_loop_Cons simp del: scale_loop.simps(2))
qed

lemma scale_loop_raises:
  "a \<in> set annos \<Longrightarrow> scale_annotation h w a = Inl e \<Longrightarrow> \<exists>e'. scale_loop h w annos [] = Inl e'"
proof (induction annos)
  case Nil
  then show ?case by simp
next
  case (Cons b annos)
  then show ?case
    by (auto simp: scale_loop_Cons simp del: scale_loop.simps(2) split: sum.splits)
qed


lemma get_scaled_segmentation_dims:
  assumes "image_dimensions ''height'' = Some h" and "image_dimensions ''width'' = Some w"
  shows "get_scaled_segmentation (Some annos) image_dimensions =
     (case scale_loop h w annos [] of Inl e \<Rightarrow> Inl e | Inr out \<Rightarrow> Inr (Some out))"
  using assms by (simp add: get_scaled_segmentation_def)

lemma get_scaled_segmentation_Inr:
  assumes "get_scaled_segmentation (Some annos) image_dimensions = Inr r"
  obtains h w out where "image_dimensions ''height'' = Some h"
    and "image_dimensions ''width'' = Some w"
    and "scale_loop h w annos [] = Inr out" and "r = Some out"
  using assms by (auto simp: get_scaled_segmentation_def split: option.splits sum.splits)

lemma interleave_length:
  "even (length zs) \<Longrightarrow>
   length (concat (map (\<lambda>(x, y). [f x, g y]) (pairs_of zs))) = length zs"
  by (induction zs rule: pairs_of.induct) auto

lemma interleave_nth:
  "even (length zs) \<Longrightarrow> k < length zs \<Longrightarrow>
   concat (map (\<lambda>(x, y). [f x, g y]) (pairs_of zs)) ! k =
     (if even k then f (zs ! k) else g (zs ! k))"
proof (induction zs arbitrary: k rule: pairs_of.induct)
  case (1 x y zs)
  show ?case
  proof (cases k)
    case 0
    then show ?thesis by simp
  next
    case (Suc k1)
    show ?thesis
    proof (cases k1)
      case 0
      with Suc show ?thesis by simp
    next
      case (Suc k2)
      with \<open>k = Suc k1\<close> 1 show ?thesis by simp
    qed
  qed
qed auto

lemma spec_normalized_polygon_length:
  "even (length (concat seg)) \<Longrightarrow>
   length (spec_normalized_polygon h w c seg) = Suc (length (concat seg))"
  by (simp add: spec_normalized_polygon_def interleave_length)

lemma spec_normalized_polygon_nth:
  assumes "even (length (concat seg))" and "k < length (concat seg)"
  shows "spec_normalized_polygon h w c seg ! Suc k =
     PyFloat (float64_quotient (concat seg ! k) (if even k then w else h))"
  using assms
  by (simp add: spec_normalized_polygon_def
      interleave_nth [where f = "\<lambda>x. PyFloat (float64_quotient x w)"
                        and g = "\<lambda>y. PyFloat (float64_quotient y h)"])

lemma reshape2_error: "reshape2 zs = Inl e \<Longrightarrow> e = ValueError"
  by (induction zs rule: reshape2.induct) (auto split: sum.splits)

lemma scale_annotation_has_keys_error:
  "has_keys a \<Longrightarrow> scale_annotation h w a = Inl e \<Longrightarrow> e = ValueError"
  by (auto simp: has_keys_def scale_annotation_def split: sum.splits dest: reshape2_error)

lemma scale_loop_has_keys_error:
  "list_all has_keys annos \<Longrightarrow> scale_loop h w annos [] = Inl e \<Longrightarrow> e = ValueError"
proof (induction annos)
  case Nil
  then show ?case by simp
next
  case (Cons a annos)
  show ?case
  proof (cases "scale_annotation h w a")
    case (Inl e')
    with Cons.prems show ?thesis
      by (auto simp: scale_loop_Cons simp del: scale_loop.simps(2)
          dest: scale_annotation_has_keys_error)
  next
    case (Inr p)
    with Cons show ?thesis
      by (auto simp: scale_loop_Cons simp del: scale_loop.simps(2) split: sum.splits)
  qed
qed

lemma scale_loop_well_formed:
  assumes "list_all well_formed_annotation annos" and "h \<noteq> 0" and "w \<noteq> 0"
    and num: "list_all numeric_annotation annos"
  shows "\<exists>out. scale_loop h w annos [] = Inr out \<and> length out = length annos \<and>
     (\<forall>i<length annos. \<forall>c seg.
         category_id (annos ! i) = Some c \<and> segmentation (annos ! i) = Some seg
         \<longrightarrow> even (length (concat seg)) \<and> out ! i = spec_normalized_polygon h w c seg)"
proof -
  from scale_loop_returns [OF assms(1)] obtain out where out: "scale_loop h w annos [] = Inr out"
    by blast
  then have all2: "list_all2 (\<lambda>a p. scale_annotation h w a = Inr p) annos out"
    by (simp add: scale_loop_Inr_iff)
  then have len: "length out = length annos"
    by (simp add: list_all2_lengthD)
  have "even (length (concat seg)) \<and> out ! i = spec_normalized_polygon h w c seg"
    if i: "i < length annos" and c: "category_id (annos ! i) = Some c"
      and seg: "segmentation (annos ! i) = Some seg" for i c seg
  proof -
    from i assms(1) have "well_formed_annotation (annos ! i)"
      by (simp add: list_all_length)
    with seg have ev: "even (length (concat seg))"
      by (simp add: well_formed_annotation_def)
    from i num seg have nums: "list_all numpy_number (concat seg)"
      by (auto simp: list_all_length numeric_annotation_def)
    from all2 i have "scale_annotation h w (annos ! i) = Inr (out ! i)"
      by (auto dest: list_all2_nthD)
    with scale_annotation_well_formed [OF c seg ev assms(2,3) nums] ev show ?thesis
      by simp
  qed
  with out len show ?thesis by blast
qed

lemma coords_in_bounds_nth:
  "coords_in_bounds h w zs \<Longrightarrow> k < length zs \<Longrightarrow>
   0 \<le> zs ! k \<and> zs ! k \<le> real_of_int (if even k then w else h)"
proof (induction h w zs arbitrary: k rule: coords_in_bounds.induct)
  case (1 h w x y zs)
  show ?case
  proof (cases k)
    case 0
    with 1 show ?thesis by simp
  next
    case (Suc k1)
    show ?thesis
    proof (cases k1)
      case 0
      with Suc 1 show ?thesis by simp
    next
      case (Suc k2)
      with \<open>k = Suc k1\<close> 1 show ?thesis by simp
    qed
  qed
qed auto

lemma scale_loop_coordinates:
  assumes wf: "list_all well_formed_annotation annos" and h0: "h \<noteq> 0" and w0: "w \<noteq> 0"
    and num: "list_all numeric_annotation annos"
  shows "\<exists>out. scale_loop h w annos [] = Inr out \<and> length out = length annos \<and>
     (\<forall>i<length annos. \<exists>seg. segmentation (annos ! i) = Some seg \<and>
         length (out ! i) = Suc (length (concat seg)) \<and>
         (\<forall>k<length (concat seg).
            out ! i ! Suc k = PyFloat (float64_quotient (concat seg ! k) (if even k then w else h))))"
proof -
  from scale_loop_well_formed [OF wf h0 w0 num] obtain out where
    out: "scale_loop h w annos [] = Inr out" and len: "length out = length annos"
    and nth: "\<And>i c seg. i < length annos \<Longrightarrow> category_id (annos ! i) = Some c \<Longrightarrow>
         segmentation (annos ! i) = Some seg \<Longrightarrow>
         even (length (concat seg)) \<and> out ! i = spec_normalized_polygon h w c seg"
    by blast
  have "\<exists>seg. segmentation (annos ! i) = Some seg \<and>
         length (out ! i) = Suc (length (concat seg)) \<and>
         (\<forall>k<length (concat seg).
            out ! i ! Suc k = PyFloat (float64_quotient (concat seg ! k) (if even k then w else h)))"
    if i: "i < length annos" for i
  proof -
    from i wf have "well_formed_annotation (annos ! i)"
      by (simp add: list_all_length)
    then obtain c seg where c: "category_id (annos ! i) = Some c"
      and seg: "segmentation (annos ! i) = Some seg"
      by (auto simp: well_formed_annotation_def split: option.splits)
    from nth [OF i c seg] have ev: "even (length (concat seg))"
      and eq: "out ! i = spec_normalized_polygon h w c seg"
      by simp_all
    from seg ev show ?thesis
      unfolding eq
      by (simp add: spec_normalized_polygon_length spec_normalized_polygon_nth)
  qed
  with out len show ?thesis by blast
qed

lemma example_polygons_scaled:
  "get_scaled_segmentation (Some example_polygons) vga =
     Inr (Some [[PyInt 3, PyFloat 0, PyFloat 0, PyFloat (1 / 2), PyFloat 0,
                 PyFloat (1 / 2), PyFloat (1 / 2), PyFloat 0, PyFloat 1],
                [PyInt 5]])"
  by (simp add: example_polygons_def vga_def get_scaled_segmentation_def scale_annotation_def
      np_divide_samples)

lemma example_polygons_well_formed: "list_all well_formed_annotation example_polygons"
  by (simp add: example_polygons_def well_formed_annotation_def)

lemma example_polygons_numeric: "list_all numeric_annotation example_polygons"
  by (simp add: example_polygons_def numeric_annotation_def numpy_number_def)

lemma vga_dimensions: "vga ''height'' = Some 480" "vga ''width'' = Some 640"
  by (simp_all add: vga_def)

lemma vga_int64: "int64_value 480" "int64_value 640"
  by (simp_all add: int64_value_def)

text \<open>
  C7: when \<^verbatim>\<open>annotations\<close> is \<^verbatim>\<open>None\<close>, \<^verbatim>\<open>get_scaled_segmentation\<close> returns \<^verbatim>\<open>None\<close>
  (not an empty list, and not an error), whatever \<^verbatim>\<open>image_dimensions\<close> is.
\<close>

theorem scale_None_returns_None:
  "get_scaled_segmentation None image_dimensions = Inr None"
  by (simp add: get_scaled_segmentation_def)

theorem scale_None_returns_None_witness:
  "get_scaled_segmentation None vga = Inr None
   \<and> get_scaled_segmentation (Some []) vga = Inr (Some [])"
  using scale_None_returns_None [of "vga"]
  by (simp add: get_scaled_segmentation_def vga_def)

text \<open>
  C2: with both dimensions present, non-zero and in the \<^verbatim>\<open>int64\<close> range, and annotations
  that have a category, a segmentation, an even number of coordinates and coordinates for
  which numpy's array is numeric, \<^verbatim>\<open>get_scaled_segmentation\<close> returns one list per
  annotation, and that list is the category followed by the rings concatenated, read as
  \<open>(x, y)\<close> pairs, \<open>x\<close> divided by the width and \<open>y\<close> by the height in float64
  arithmetic, in the same order. The square \<^verbatim>\<open>[[0,0,10,0,10,10,0,10]]\<close> in a 10 by 10
  image gives \<^verbatim>\<open>[[category_id, 0.0,0.0, 1.0,0.0, 1.0,1.0, 0.0,1.0]]\<close>.
\<close>

theorem scale_normalizes_polygons:
  "(image_dimensions ''height'' = Some h \<and> image_dimensions ''width'' = Some w \<and> h \<noteq> 0 \<and> w \<noteq> 0
      \<and> int64_value h \<and> int64_value w
      \<and> list_all well_formed_annotation annos \<and> list_all numeric_annotation annos
    \<longrightarrow> (\<exists>out. get_scaled_segmentation (Some annos) image_dimensions = Inr (Some out)
          \<and> length out = length annos
          \<and> (\<forall>i<length annos. \<forall>c seg.
                category_id (annos ! i) = Some c \<and> segmentation (annos ! i) = Some seg
                \<longrightarrow> out ! i = spec_normalized_polygon h w c seg)))
   \<and> get_scaled_segmentation
        (Some [\<lparr>image_id = img, category_id = Some c0, iscrowd = crowd,
                segmentation = Some [[0, 0, 10, 0, 10, 10, 0, 10]]\<rparr>])
        [''height'' \<mapsto> 10, ''width'' \<mapsto> 10]
      = Inr (Some [[PyInt c0, PyFloat 0, PyFloat 0, PyFloat 1, PyFloat 0,
                    PyFloat 1, PyFloat 1, PyFloat 0, PyFloat 1]])"
proof (intro conjI impI)
  assume a: "image_dimensions ''height'' = Some h \<and> image_dimensions ''width'' = Some w \<and> h \<noteq> 0 \<and> w \<noteq> 0
      \<and> int64_value h \<and> int64_value w
      \<and> list_all well_formed_annotation annos \<and> list_all numeric_annotation annos"
  then have h: "image_dimensions ''height'' = Some h" and w: "image_dimensions ''width'' = Some w"
    and h0: "h \<noteq> 0" and w0: "w \<noteq> 0" and wf: "list_all well_formed_annotation annos"
    and num: "list_all numeric_annotation annos"
    by simp_all
  from scale_loop_well_formed [OF wf h0 w0 num] obtain out where
    "scale_loop h w annos [] = Inr out" "length out = length annos"
    "\<forall>i<length annos. \<forall>c seg.
         category_id (annos ! i) = Some c \<and> segmentation (annos ! i) = Some seg
         \<longrightarrow> even (length (concat seg)) \<and> out ! i = spec_normalized_polygon h w c seg"
    by blast
  then show "\<exists>out. get_scaled_segmentation (Some annos) image_dimensions = Inr (Some out)
          \<and> length out = length annos
          \<and> (\<forall>i<length annos. \<forall>c seg.
                category_id (annos ! i) = Some c \<and> segmentation (annos ! i) = Some seg
                \<longrightarrow> out ! i = spec_normalized_polygon h w c seg)"
    by (simp add: get_scaled_segmentation_dims [OF h w])
next
  show "get_scaled_segmentation
        (Some [\<lparr>image_id = img, category_id = Some c0, iscrowd = crowd,
                segmentation = Some [[0, 0, 10, 0, 10, 10, 0, 10]]\<rparr>])
        [''height'' \<mapsto> 10, ''width'' \<mapsto> 10]
      = Inr (Some [[PyInt c0, PyFloat 0, PyFloat 0, PyFloat 1, PyFloat 0,
                    PyFloat 1, PyFloat 1, PyFloat 0, PyFloat 1]])"
    by (simp add: get_scaled_segmentation_def scale_annotation_def np_divide_samples)
qed

theorem scale_normalizes_polygons_witness:
  "vga ''height'' = Some 480 \<and> vga ''width'' = Some 640
   \<and> int64_value 480 \<and> int64_value 640
   \<and> list_all well_formed_annotation example_polygons
   \<and> list_all numeric_annotation example_polygons
   \<and> get_scaled_segmentation (Some example_polygons) vga =
       Inr (Some [spec_normalized_polygon 480 640 3 [[0, 0, 320, 0], [320, 240, 0, 480]],
                  spec_normalized_polygon 480 640 5 []])
   \<and> spec_normalized_polygon 480 640 3 [[0, 0, 320, 0], [320, 240, 0, 480]]
       = [PyInt 3, PyFloat 0, PyFloat 0, PyFloat (1 / 2), PyFloat 0,
          PyFloat (1 / 2), PyFloat (1 / 2), PyFloat 0, PyFloat 1]
   \<and> spec_normalized_polygon 3 3 9 [[1, 1]]
       = [PyInt 9, PyFloat (6004799503160661 / 18014398509481984),
          PyFloat (6004799503160661 / 18014398509481984)]"
proof -
  have nz: "(480::int) \<noteq> 0" "(640::int) \<noteq> 0" by simp_all
  from scale_normalizes_polygons [of vga 480 640 example_polygons]
    vga_dimensions nz vga_int64 example_polygons_well_formed example_polygons_numeric
  obtain out where out: "get_scaled_segmentation (Some example_polygons) vga = Inr (Some out)"
    and len: "length out = length example_polygons"
    and nth: "\<forall>i<length example_polygons. \<forall>c seg.
                category_id (example_polygons ! i) = Some c
                \<and> segmentation (example_polygons ! i) = Some seg
                \<longrightarrow> out ! i = spec_normalized_polygon 480 640 c seg"
    by blast
  from nth have "out ! 0 = spec_normalized_polygon 480 640 3 [[0, 0, 320, 0], [320, 240, 0, 480]]"
    and "out ! 1 = spec_normalized_polygon 480 640 5 []"
    by (simp_all add: example_polygons_def)
  moreover from len have "length out = 2"
    by (simp add: example_polygons_def)
  ultimately have "out = [spec_normalized_polygon 480 640 3 [[0, 0, 320, 0], [320, 240, 0, 480]],
                  spec_normalized_polygon 480 640 5 []]"
    by (cases out; cases "tl out") auto
  with out vga_dimensions vga_int64 example_polygons_well_formed example_polygons_numeric
  show ?thesis
    by (simp add: spec_normalized_polygon_def float64_quotient_samples)
qed

text \<open>
  C3, as the specification words it, has every coordinate outside its bounds give a value
  outside \<open>[0, 1]\<close>. The quotient is rounded: the negative double nearest to zero, an \<open>x\<close>
  below its bound 0, divided by a width of 640 gives \<^verbatim>\<open>-0.0\<close>, which lies in \<open>[0, 1]\<close>.
\<close>

theorem scale_underflow_counterexample:
  "- least_double < 0
   \<and> numpy_number (- least_double)
   \<and> get_scaled_segmentation (Some [underflow_polygon]) vga
       = Inr (Some [[PyInt 3, PyFloat 0, PyFloat 0]])"
proof -
  have "float64_round (- least_double) = - least_double"
    by (simp add: float64_round_minus float64_round_least)
  moreover have "- (2 ^ 63) \<le> - least_double" "- least_double < 2 ^ 63"
    using least_double_pos least_double_less by simp_all
  ultimately have "numpy_number (- least_double)"
    by (simp add: numpy_number_def)
  moreover have "get_scaled_segmentation (Some [underflow_polygon]) vga
       = Inr (Some [[PyInt 3, PyFloat 0, PyFloat 0]])"
    by (simp add: underflow_polygon_def vga_def get_scaled_segmentation_def scale_annotation_def
        np_divide_samples)
  ultimately show ?thesis using least_double_pos by simp
qed

text \<open>
  C3, amended: with positive dimensions in the \<^verbatim>\<open>int64\<close> range and well-formed annotations
  whose coordinates give a numeric array, if every \<open>x\<close> lies in \<open>[0, w]\<close> and every \<open>y\<close>
  in \<open>[0, h]\<close>, every element after the category of every returned list is a float in
  \<open>[0, 1]\<close>. Nothing is clamped: each such element is the float64 quotient of its
  coordinate by its dimension, which is at most 0 for a negative coordinate and at least 1
  for a coordinate beyond its bound.
\<close>

theorem scale_in_unit_interval:
  assumes h: "image_dimensions ''height'' = Some h" and w: "image_dimensions ''width'' = Some w"
    and hpos: "0 < h" and wpos: "0 < w"
    and hint: "int64_value h" and wint: "int64_value w"
    and wf: "list_all well_formed_annotation annos"
    and num: "list_all numeric_annotation annos"
  shows "\<exists>out. get_scaled_segmentation (Some annos) image_dimensions = Inr (Some out)
     \<and> (list_all (annotation_in_bounds h w) annos
          \<longrightarrow> (\<forall>p\<in>set out. \<forall>v\<in>set (tl p). \<exists>r. v = PyFloat r \<and> 0 \<le> r \<and> r \<le> 1))
     \<and> (\<forall>i<length annos. \<forall>seg. segmentation (annos ! i) = Some seg \<longrightarrow>
           (\<forall>k<length (concat seg). \<exists>r. out ! i ! Suc k = PyFloat r
               \<and> r = float64_quotient (concat seg ! k) (if even k then w else h)
               \<and> (concat seg ! k < 0 \<longrightarrow> r \<le> 0)
               \<and> (real_of_int (if even k then w else h) < concat seg ! k \<longrightarrow> 1 \<le> r)))"
proof -
  from hpos wpos have h0: "h \<noteq> 0" and w0: "w \<noteq> 0" by simp_all
  from scale_loop_coordinates [OF wf h0 w0 num] obtain out where
    out: "scale_loop h w annos [] = Inr out" and len: "length out = length annos"
    and nth: "\<And>i. i < length annos \<Longrightarrow> \<exists>seg. segmentation (annos ! i) = Some seg \<and>
         length (out ! i) = Suc (length (concat seg)) \<and>
         (\<forall>k<length (concat seg).
            out ! i ! Suc k = PyFloat (float64_quotient (concat seg ! k) (if even k then w else h)))"
    by blast
  have res: "get_scaled_segmentation (Some annos) image_dimensions = Inr (Some out)"
    using out by (simp add: get_scaled_segmentation_dims [OF h w])
  have pos: "0 < (if even k then w else h)" for k :: nat
    using hpos wpos by simp
  have A: "\<exists>r. v = PyFloat r \<and> 0 \<le> r \<and> r \<le> 1"
    if inb: "list_all (annotation_in_bounds h w) annos" and p: "p \<in> set out" and v: "v \<in> set (tl p)"
    for p v
  proof -
    from p len obtain i where i: "i < length annos" and pi: "p = out ! i"
      by (auto simp: in_set_conv_nth)
    from nth [OF i] obtain seg where seg: "segmentation (annos ! i) = Some seg"
      and plen: "length (out ! i) = Suc (length (concat seg))"
      and pk: "\<And>k. k < length (concat seg) \<Longrightarrow>
            out ! i ! Suc k = PyFloat (float64_quotient (concat seg ! k) (if even k then w else h))"
      by blast
    from v obtain k where k: "k < length (tl p)" and vk: "v = tl p ! k"
      by (auto simp: in_set_conv_nth)
    from k plen pi have k': "k < length (concat seg)" by simp
    from vk k have "v = p ! Suc k" by (simp add: nth_tl)
    with pk [OF k'] pi
    have veq: "v = PyFloat (float64_quotient (concat seg ! k) (if even k then w else h))" by simp
    from inb i seg have "coords_in_bounds h w (concat seg)"
      by (auto simp: list_all_length annotation_in_bounds_def)
    from coords_in_bounds_nth [OF this k']
    have "0 \<le> concat seg ! k" and "concat seg ! k \<le> real_of_int (if even k then w else h)"
      by simp_all
    from float64_quotient_unit [OF this pos [of k]] veq show ?thesis by blast
  qed
  have B: "\<exists>r. out ! i ! Suc k = PyFloat r
               \<and> r = float64_quotient (concat seg ! k) (if even k then w else h)
               \<and> (concat seg ! k < 0 \<longrightarrow> r \<le> 0)
               \<and> (real_of_int (if even k then w else h) < concat seg ! k \<longrightarrow> 1 \<le> r)"
    if i: "i < length annos" and seg: "segmentation (annos ! i) = Some seg"
      and k: "k < length (concat seg)" for i seg k
  proof -
    from nth [OF i] seg k
    have "out ! i ! Suc k = PyFloat (float64_quotient (concat seg ! k) (if even k then w else h))"
      by auto
    moreover have "float64_quotient (concat seg ! k) (if even k then w else h) \<le> 0"
      if "concat seg ! k < 0"
      using that pos [of k] by (intro float64_quotient_nonpos) simp_all
    moreover have "1 \<le> float64_quotient (concat seg ! k) (if even k then w else h)"
      if "real_of_int (if even k then w else h) < concat seg ! k"
      using that pos [of k] by (intro float64_quotient_ge_1) simp_all
    ultimately show ?thesis by blast
  qed
  from res A B show ?thesis by blast
qed

theorem scale_in_unit_interval_witness:
  "list_all numeric_annotation example_polygons
   \<and> list_all (annotation_in_bounds 480 640) example_polygons
   \<and> get_scaled_segmentation (Some example_polygons) vga =
     Inr (Some [[PyInt 3, PyFloat 0, PyFloat 0, PyFloat (1 / 2), PyFloat 0,
                 PyFloat (1 / 2), PyFloat (1 / 2), PyFloat 0, PyFloat 1],
                [PyInt 5]])
   \<and> list_all (\<lambda>v. \<exists>r. v = PyFloat r \<and> 0 \<le> r \<and> r \<le> 1)
         [PyFloat 0, PyFloat 0, PyFloat (1 / 2), PyFloat 0,
          PyFloat (1 / 2), PyFloat (1 / 2), PyFloat 0, PyFloat 1]
   \<and> \<not> annotation_in_bounds 480 640 outside_polygon
   \<and> get_scaled_segmentation (Some [outside_polygon]) vga
       = Inr (Some [[PyInt 3, PyFloat 2, PyFloat (- (1 / 2))]])"
proof -
  have pos: "(0::int) < 480" "(0::int) < 640" by simp_all
  have inb: "list_all (annotation_in_bounds 480 640) example_polygons"
    by (simp add: example_polygons_def annotation_in_bounds_def)
  from scale_in_unit_interval
    [OF vga_dimensions pos vga_int64 example_polygons_well_formed example_polygons_numeric]
    example_polygons_scaled inb
  have "\<forall>p\<in>set [[PyInt 3, PyFloat 0, PyFloat 0, PyFloat (1 / 2), PyFloat 0,
                 PyFloat (1 / 2), PyFloat (1 / 2), PyFloat 0, PyFloat 1],
                [PyInt 5]]. \<forall>v\<in>set (tl p). \<exists>r. v = PyFloat r \<and> 0 \<le> r \<and> r \<le> 1"
    by auto
  then have unit: "list_all (\<lambda>v. \<exists>r. v = PyFloat r \<and> 0 \<le> r \<and> r \<le> 1)
         [PyFloat 0, PyFloat 0, PyFloat (1 / 2), PyFloat 0,
          PyFloat (1 / 2), PyFloat (1 / 2), PyFloat 0, PyFloat 1]"
    by simp
  have out: "\<not> annotation_in_bounds 480 640 outside_polygon"
    by (simp add: outside_polygon_def annotation_in_bounds_def)
  have res: "get_scaled_segmentation (Some [outside_polygon]) vga
       = Inr (Some [[PyInt 3, PyFloat 2, PyFloat (- (1 / 2))]])"
    by (simp add: outside_polygon_def vga_def get_scaled_segmentation_def scale_annotation_def
        np_divide_samples)
  from example_polygons_numeric inb example_polygons_scaled unit out res show ?thesis by blast
qed

text \<open>
  C4: a call of \<^verbatim>\<open>get_scaled_segmentation\<close> on a list of annotations that returns gives
  a list of the same length, whose \<open>i\<close>-th element is what the function gives for the
  \<open>i\<close>-th annotation alone; and it does return when both dimensions are present and in the
  \<^verbatim>\<open>int64\<close> range and the annotations are well-formed with coordinates that give a numeric
  array.
\<close>

theorem scale_preserves_order:
  "(has_dimensions image_dimensions \<and> numeric_dimensions image_dimensions
      \<and> list_all well_formed_annotation annos \<and> list_all numeric_annotation annos
      \<longrightarrow> (\<exists>out. get_scaled_segmentation (Some annos) image_dimensions = Inr (Some out)))
   \<and> (\<forall>r. get_scaled_segmentation (Some annos) image_dimensions = Inr r
        \<longrightarrow> (\<exists>out. r = Some out \<and> length out = length annos
              \<and> (\<forall>i<length annos.
                   get_scaled_segmentation (Some [annos ! i]) image_dimensions
                     = Inr (Some [out ! i]))))"
proof (intro conjI impI allI)
  assume "has_dimensions image_dimensions \<and> numeric_dimensions image_dimensions
      \<and> list_all well_formed_annotation annos \<and> list_all numeric_annotation annos"
  then obtain h w where h: "image_dimensions ''height'' = Some h"
    and w: "image_dimensions ''width'' = Some w"
    and wf: "list_all well_formed_annotation annos"
    by (auto simp: has_dimensions_def)
  from scale_loop_returns [OF wf, of h w]
  show "\<exists>out. get_scaled_segmentation (Some annos) image_dimensions = Inr (Some out)"
    by (auto simp: get_scaled_segmentation_dims [OF h w])
next
  fix r
  assume "get_scaled_segmentation (Some annos) image_dimensions = Inr r"
  then obtain h w out where h: "image_dimensions ''height'' = Some h"
    and w: "image_dimensions ''width'' = Some w"
    and out: "scale_loop h w annos [] = Inr out" and r: "r = Some out"
    by (rule get_scaled_segmentation_Inr)
  from out have all2: "list_all2 (\<lambda>a p. scale_annotation h w a = Inr p) annos out"
    by (simp add: scale_loop_Inr_iff)
  then have len: "length out = length annos"
    by (simp add: list_all2_lengthD)
  have "get_scaled_segmentation (Some [annos ! i]) image_dimensions = Inr (Some [out ! i])"
    if "i < length annos" for i
  proof -
    from all2 that have "scale_annotation h w (annos ! i) = Inr (out ! i)"
      by (auto dest: list_all2_nthD)
    then show ?thesis
      by (simp add: get_scaled_segmentation_dims [OF h w])
  qed
  with r len show "\<exists>out. r = Some out \<and> length out = length annos
              \<and> (\<forall>i<length annos.
                   get_scaled_segmentation (Some [annos ! i]) image_dimensions
                     = Inr (Some [out ! i]))"
    by blast
qed

theorem scale_preserves_order_witness:
  "has_dimensions vga \<and> numeric_dimensions vga
   \<and> list_all well_formed_annotation example_polygons
   \<and> list_all numeric_annotation example_polygons
   \<and> get_scaled_segmentation (Some example_polygons) vga =
     Inr (Some [[PyInt 3, PyFloat 0, PyFloat 0, PyFloat (1 / 2), PyFloat 0,
                 PyFloat (1 / 2), PyFloat (1 / 2), PyFloat 0, PyFloat 1],
                [PyInt 5]])
   \<and> get_scaled_segmentation (Some [example_polygons ! 1]) vga = Inr (Some [[PyInt 5]])"
proof -
  have dims: "has_dimensions vga" "numeric_dimensions vga"
    by (simp_all add: has_dimensions_def numeric_dimensions_def int64_value_def vga_def)
  from scale_preserves_order [of vga example_polygons] dims
    example_polygons_well_formed example_polygons_numeric
  have "\<exists>out. get_scaled_segmentation (Some example_polygons) vga = Inr (Some out)"
    by blast
  from scale_preserves_order [of vga example_polygons] example_polygons_scaled
  have "\<forall>i<length example_polygons.
      get_scaled_segmentation (Some [example_polygons ! i]) vga
        = Inr (Some [[[PyInt 3, PyFloat 0, PyFloat 0, PyFloat (1 / 2), PyFloat 0,
                 PyFloat (1 / 2), PyFloat (1 / 2), PyFloat 0, PyFloat 1],
                [PyInt 5]] ! i])"
    by auto
  moreover have "1 < length example_polygons"
    by (simp add: example_polygons_def)
  ultimately have "get_scaled_segmentation (Some [example_polygons ! 1]) vga = Inr (Some [[PyInt 5]])"
    by fastforce
  with dims example_polygons_well_formed example_polygons_numeric example_polygons_scaled
  show ?thesis by blast
qed

text \<open>
  C6: a list that contains an annotation with an odd number of coordinates over all its
  rings makes \<^verbatim>\<open>get_scaled_segmentation\<close> raise; nothing is returned, so the annotation is
  neither dropped nor truncated. When no key is missing and all numbers are in the range
  of numpy's numeric arrays, the exception is the \<^verbatim>\<open>ValueError\<close> of numpy's
  \<^verbatim>\<open>reshape(-1, 2)\<close>, the specification's \<^verbatim>\<open>MalformedAnnotationError\<close>.
\<close>

theorem scale_odd_raises:
  assumes a: "a \<in> set annos" and seg: "segmentation a = Some seg"
    and odd: "odd (length (concat seg))"
  shows "(\<exists>e. get_scaled_segmentation (Some annos) image_dimensions = Inl e)
     \<and> (has_dimensions image_dimensions \<and> numeric_dimensions image_dimensions
          \<and> list_all has_keys annos \<and> list_all numeric_annotation annos
          \<longrightarrow> get_scaled_segmentation (Some annos) image_dimensions = Inl ValueError)"
proof -
  have raises: "\<exists>e. scale_loop h w annos [] = Inl e" for h w
  proof -
    from scale_annotation_odd [OF seg odd, of h w]
    obtain e where "scale_annotation h w a = Inl e"
      by (auto split: if_splits)
    from scale_loop_raises [OF a this] show ?thesis .
  qed
  have first: "\<exists>e. get_scaled_segmentation (Some annos) image_dimensions = Inl e"
  proof (cases "has_dimensions image_dimensions")
    case True
    then obtain h w where h: "image_dimensions ''height'' = Some h"
      and w: "image_dimensions ''width'' = Some w"
      by (auto simp: has_dimensions_def)
    from raises [of h w] show ?thesis
      by (auto simp: get_scaled_segmentation_dims [OF h w])
  next
    case False
    then show ?thesis
      by (auto simp: has_dimensions_def get_scaled_segmentation_def split: option.splits)
  qed
  have second: "get_scaled_segmentation (Some annos) image_dimensions = Inl ValueError"
    if "has_dimensions image_dimensions" and keys: "list_all has_keys annos"
  proof -
    from that obtain h w where h: "image_dimensions ''height'' = Some h"
      and w: "image_dimensions ''width'' = Some w"
      by (auto simp: has_dimensions_def)
    from raises [of h w] obtain e where e: "scale_loop h w annos [] = Inl e" by blast
    from scale_loop_has_keys_error [OF keys e] e show ?thesis
      by (simp add: get_scaled_segmentation_dims [OF h w])
  qed
  from first second show ?thesis by blast
qed

theorem scale_odd_raises_witness:
  "odd_polygon \<in> set (example_polygons @ [odd_polygon])
   \<and> segmentation odd_polygon = Some [[0, 0, 320], [10, 20]]
   \<and> odd (length (concat [[0, 0, 320], [10, 20 :: real]]))
   \<and> has_dimensions vga \<and> numeric_dimensions vga
   \<and> list_all has_keys (example_polygons @ [odd_polygon])
   \<and> list_all numeric_annotation (example_polygons @ [odd_polygon])
   \<and> get_scaled_segmentation (Some (example_polygons @ [odd_polygon])) vga = Inl ValueError"
proof -
  have a: "odd_polygon \<in> set (example_polygons @ [odd_polygon])" by simp
  have seg: "segmentation odd_polygon = Some [[0, 0, 320], [10, 20]]"
    by (simp add: odd_polygon_def)
  have odd: "odd (length (concat [[0, 0, 320], [10, 20 :: real]]))" by simp
  have dims: "has_dimensions vga" "numeric_dimensions vga"
    by (simp_all add: has_dimensions_def numeric_dimensions_def int64_value_def vga_def)
  have keys: "list_all has_keys (example_polygons @ [odd_polygon])"
    by (simp add: example_polygons_def odd_polygon_def has_keys_def)
  have num: "list_all numeric_annotation (example_polygons @ [odd_polygon])"
    by (simp add: example_polygons_numeric)
       (simp add: odd_polygon_def numeric_annotation_def numpy_number_def)
  from scale_odd_raises [OF a seg odd, of vga] dims keys num
  have "get_scaled_segmentation (Some (example_polygons @ [odd_polygon])) vga = Inl ValueError"
    by blast
  with a seg odd dims keys num show ?thesis by blast
qed

end
